theory Spec2Isabelle
  imports Main "HOL-Library.Word" "HOL-Library.Sublist"
begin

unbundle bit_operations_syntax

section \<open>The model\<close>

text \<open>
  The development embeds the octree codec of \<^verbatim>\<open>conversion.cpp\<close> and the container
  format of \<^verbatim>\<open>io.cpp\<close>.

  \<^item> \<^verbatim>\<open>vector3<bool>\<close> is a list of lists of lists of booleans; \<^verbatim>\<open>std::vector<bool>\<close>
    is a list of booleans. A vector's \<^verbatim>\<open>size()\<close> is the length of the list: a vector
    that exists has a size that fits \<^verbatim>\<open>size_t\<close>.
  \<^item> \<^verbatim>\<open>size_t\<close> is taken to be 64 bits wide. \<open>pow2_roof\<close>, which works on the bits
    of its argument, is modelled on \<open>64 word\<close>. Indices into vectors are natural numbers,
    and the arithmetic the code does on them (differences, products, the sum before
    a midpoint shift) is written with its wrap-around modulo \<open>2 ^ 64\<close>.
  \<^item> An exception is a value \<open>Inl e\<close> of the result type \<open>error + 'a\<close>.
  \<^item> Whether an \<^verbatim>\<open>assert\<close> is compiled in depends on the macro \<^verbatim>\<open>NDEBUG\<close>, which the
    source does not set: it is set where the code is built. It is the parameter
    \<open>ndebug\<close> of \<open>decode\<close> and \<open>load\<close>. With \<^verbatim>\<open>NDEBUG\<close> the assertion is absent. Without
    it a failed assertion calls \<^verbatim>\<open>std::abort\<close>: the process ends, and nothing, neither a
    value nor an exception, reaches the caller. This outcome is written
    \<open>Inl AssertionFailed\<close>; it is the one \<open>Inl\<close> that is not an exception.
  \<^item> Access to a vector element that does not exist has no defined behaviour in C++.
    Reads of the encoding in the decoder and the erasure of the padding bits in
    \<open>load\<close> are modelled with that outcome made explicit (\<open>UndefinedBehaviour\<close>); for
    reads of and writes to a volume the theorems assume the shape (a cuboid or a cube
    of the right dimensions) under which every access is in range.
  \<^item> Output to the console is not part of the model. Memory is unbounded.
\<close>

datatype error =
    InvalidArgument          \<comment> \<open>\<^verbatim>\<open>std::invalid_argument\<close>\<close>
  | RecursionLimitExceeded   \<comment> \<open>\<^verbatim>\<open>std::runtime_error\<close>, maximum recursion depth reached\<close>
  | OutOfRange               \<comment> \<open>\<^verbatim>\<open>std::out_of_range\<close>\<close>
  | FormatError              \<comment> \<open>\<^verbatim>\<open>std::runtime_error\<close>, signature or resolution rejected\<close>
  | IOError                  \<comment> \<open>\<^verbatim>\<open>std::runtime_error\<close>, file could not be opened\<close>
  | AssertionFailed          \<comment> \<open>a failed \<^verbatim>\<open>assert\<close>: the process is aborted\<close>
  | UndefinedBehaviour       \<comment> \<open>an access outside a vector or to an indeterminate buffer\<close>

type_synonym size_t = "64 word"
type_synonym 'a vector3 = "'a list list list"
type_synonym region = "nat \<times> nat \<times> nat \<times> nat \<times> nat \<times> nat"

definition RECURSION_MAX_DEPTH :: nat where
  "RECURSION_MAX_DEPTH = 20"

subsection \<open>Arithmetic of \<^verbatim>\<open>size_t\<close> on indices\<close>

definition wrap_size_t :: "nat \<Rightarrow> nat" where
  "wrap_size_t n = n mod 2 ^ 64"

definition sub_size_t :: "nat \<Rightarrow> nat \<Rightarrow> nat" where
  "sub_size_t a b = (wrap_size_t a + 2 ^ 64 - wrap_size_t b) mod 2 ^ 64"

definition subvolume_size :: "nat \<Rightarrow> nat \<Rightarrow> nat \<Rightarrow> nat \<Rightarrow> nat \<Rightarrow> nat \<Rightarrow> nat" where
  "subvolume_size xs xe ys ye zs ze =
     wrap_size_t (sub_size_t xe xs * sub_size_t ye ys * sub_size_t ze zs)"

definition midpoint :: "nat \<Rightarrow> nat \<Rightarrow> nat" where
  \<comment> \<open>\<^verbatim>\<open>(xe + xs) >> 1\<close> in \<open>encode_recursive\<close>, \<^verbatim>\<open>(xs + xe) / 2\<close> in \<open>decode_recursive\<close>\<close>
  "midpoint s e = wrap_size_t (e + s) div 2"

subsection \<open>Shape normalisation\<close>

function pow2_roof_loop :: "size_t \<Rightarrow> size_t \<Rightarrow> size_t" where
  "pow2_roof_loop number shift =
     (let val = number;
          number' = number OR drop_bit (unat shift) number;
          shift' = shift * 2
      in if number' > val then pow2_roof_loop number' shift' else val)"
  by pat_completeness auto
termination
proof (relation "measure (\<lambda>(number, shift). 2 ^ 64 - unat number)")
  show "wf (measure (\<lambda>(number :: size_t, shift :: size_t). 2 ^ 64 - unat number))"
    by simp
next
  fix number shift val number' shift' :: size_t
  assume "val = number" "number' = number OR drop_bit (unat shift) number" "val < number'"
  then have "unat number < unat number'"
    by (simp add: word_less_nat_alt)
  moreover have "unat number' < 2 ^ 64"
    using unsigned_less [of number', where 'a = nat] by simp
  ultimately show "((number', shift'), (number, shift))
      \<in> measure (\<lambda>(number, shift). 2 ^ 64 - unat number)"
    by simp
qed

declare pow2_roof_loop.simps [simp del]

text \<open>
  The \<^verbatim>\<open>do ... while (number > val)\<close> loop of \<open>pow2_roof\<close> is \<open>pow2_roof_loop\<close>, which
  returns the last \<open>val\<close>. In its last round the shift count can reach the width of
  \<^verbatim>\<open>size_t\<close>; the shifted value is or-ed into a number that has every bit below its
  top bit set by then, so the round leaves the number as it is whatever the shift
  yields (\<open>drop_bit\<close> yields 0).
\<close>

definition pow2_roof :: "size_t \<Rightarrow> size_t" where
  "pow2_roof number =
     (if number AND (number - 1) = 0 then number
      else pow2_roof_loop number 1 + 1)"

definition max_res_pow2_roof :: "nat \<Rightarrow> nat \<Rightarrow> nat \<Rightarrow> nat" where
  "max_res_pow2_roof x_res y_res z_res =
     (let max_res = max x_res y_res;
          max_res = max max_res z_res
      in unat (pow2_roof (of_nat max_res)))"

definition resize :: "'a list \<Rightarrow> nat \<Rightarrow> 'a \<Rightarrow> 'a list" where
  \<comment> \<open>\<^verbatim>\<open>std::vector::resize\<close>: cut, or fill up with value-initialised elements\<close>
  "resize v n d = take n v @ replicate (n - length v) d"

definition cut_volume :: "bool vector3 \<Rightarrow> nat \<Rightarrow> nat \<Rightarrow> nat \<Rightarrow> bool vector3" where
  "cut_volume volume x_res y_res z_res =
     map (\<lambda>row. map (\<lambda>col. resize col z_res False) (resize row y_res []))
         (resize volume x_res [])"

definition size_volume :: "'a vector3 \<Rightarrow> nat" where
  "size_volume data =
     (let size = length data;
          size = (if 0 \<noteq> size then wrap_size_t (size * length (data ! 0)) else size);
          size = (if 0 \<noteq> size then wrap_size_t (size * length (data ! 0 ! 0)) else size)
      in size)"

definition deep_copy :: "'a vector3 \<Rightarrow> 'a vector3" where
  "deep_copy vector =
     (if 0 = size_volume vector then []
      else let x_res = length vector; y_res = length (vector ! 0);
               z_res = length (vector ! 0 ! 0)
           in map (\<lambda>x. map (\<lambda>y. map (\<lambda>z. vector ! x ! y ! z) [0..<z_res]) [0..<y_res])
                  [0..<x_res])"

definition pad_to_cube_inplace :: "bool vector3 \<Rightarrow> error + bool vector3" where
  \<comment> \<open>\<^verbatim>\<open>void pad_to_cube(vector3<bool> &data)\<close>\<close>
  "pad_to_cube_inplace data =
     (if 0 = size_volume data then Inl InvalidArgument
      else let max_res = max_res_pow2_roof (length data) (length (data ! 0))
                                           (length (data ! 0 ! 0))
           in Inr (map (\<lambda>plane. map (\<lambda>col. resize col max_res False)
                                      (resize plane max_res []))
                       (resize data max_res [])))"

definition pad_to_cube :: "bool vector3 \<Rightarrow> error + bool vector3" where
  \<comment> \<open>\<^verbatim>\<open>vector3<bool> pad_to_cube(const vector3<bool> &data)\<close>\<close>
  "pad_to_cube data = pad_to_cube_inplace (deep_copy data)"

subsection \<open>The octree codec\<close>

definition is_subvolume_homogeneous ::
  "'a vector3 \<Rightarrow> nat \<Rightarrow> nat \<Rightarrow> nat \<Rightarrow> nat \<Rightarrow> nat \<Rightarrow> nat \<Rightarrow> bool" where
  "is_subvolume_homogeneous data xs xe ys ye zs ze =
     (if subvolume_size xs xe ys ye zs ze < 2 then True
      else let first = data ! xs ! ys ! zs
           in list_all (\<lambda>x. list_all (\<lambda>y. list_all (\<lambda>z. \<not> data ! x ! y ! z \<noteq> first)
                  [zs..<ze]) [ys..<ye]) [xs..<xe])"

definition octants ::
  "nat \<Rightarrow> nat \<Rightarrow> nat \<Rightarrow> nat \<Rightarrow> nat \<Rightarrow> nat \<Rightarrow> nat \<Rightarrow> nat \<Rightarrow> nat \<Rightarrow> region list" where
  \<comment> \<open>the ranges of the three nested two-round loops, in the order of the calls\<close>
  "octants xs x_split xe ys y_split ye zs z_split ze =
     concat (map (\<lambda>(xfirst, xsecond).
       concat (map (\<lambda>(yfirst, ysecond).
         map (\<lambda>(zfirst, zsecond). (xfirst, xsecond, yfirst, ysecond, zfirst, zsecond))
           [(zs, z_split), (z_split, ze)])
         [(ys, y_split), (y_split, ye)]))
       [(xs, x_split), (x_split, xe)])"

function encode_recursive ::
    "bool vector3 \<Rightarrow> bool list \<Rightarrow> nat \<Rightarrow> nat \<Rightarrow> nat \<Rightarrow> nat \<Rightarrow> nat \<Rightarrow> nat \<Rightarrow> nat
      \<Rightarrow> error + bool list"
  and encode_octants ::
    "bool vector3 \<Rightarrow> bool list \<Rightarrow> region list \<Rightarrow> nat \<Rightarrow> error + bool list" where
  "encode_recursive data encoding xs xe ys ye zs ze depth =
     (if depth > RECURSION_MAX_DEPTH then Inl RecursionLimitExceeded
      else if 0 = subvolume_size xs xe ys ye zs ze then Inl InvalidArgument
      else if is_subvolume_homogeneous data xs xe ys ye zs ze
        then Inr (encoding @ [False, data ! xs ! ys ! zs])
      else let x_split = midpoint xs xe;
               y_split = midpoint ys ye;
               z_split = midpoint zs ze
           in encode_octants data (encoding @ [True])
                (octants xs x_split xe ys y_split ye zs z_split ze) (depth + 1))"
| "encode_octants data encoding [] depth = Inr encoding"
| "encode_octants data encoding ((xfirst, xsecond, yfirst, ysecond, zfirst, zsecond) # rest)
       depth =
     (case encode_recursive data encoding xfirst xsecond yfirst ysecond zfirst zsecond depth of
        Inl e \<Rightarrow> Inl e
      | Inr encoding' \<Rightarrow> encode_octants data encoding' rest depth)"
  by pat_completeness auto
termination
  by (relation "measure (\<lambda>a. case a of
        Inl (data, encoding, xs, xe, ys, ye, zs, ze, depth) \<Rightarrow>
          10 * (Suc RECURSION_MAX_DEPTH - depth)
      | Inr (data, encoding, rest, depth) \<Rightarrow>
          10 * (Suc RECURSION_MAX_DEPTH - depth) + length rest)")
     (auto simp: octants_def RECURSION_MAX_DEPTH_def)

definition encode :: "bool vector3 \<Rightarrow> error + bool list" where
  "encode data =
     (let resolution = length data
      in encode_recursive data [] 0 resolution 0 resolution 0 resolution 0)"

definition set_range ::
  "bool vector3 \<Rightarrow> bool \<Rightarrow> nat \<Rightarrow> nat \<Rightarrow> nat \<Rightarrow> nat \<Rightarrow> nat \<Rightarrow> nat \<Rightarrow> bool vector3" where
  "set_range data value xs xe ys ye zs ze =
     fold (\<lambda>x data.
       fold (\<lambda>y data.
         fold (\<lambda>z data. data[x := (data ! x)[y := (data ! x ! y)[z := value]]])
           [zs..<ze] data)
         [ys..<ye] data)
       [xs..<xe] data"

definition read_bit :: "bool list \<Rightarrow> nat \<Rightarrow> error + bool" where
  \<comment> \<open>\<^verbatim>\<open>encoding[next_idx]\<close>\<close>
  "read_bit encoding idx =
     (if idx < length encoding then Inr (encoding ! idx) else Inl UndefinedBehaviour)"

function decode_recursive ::
    "bool list \<Rightarrow> bool vector3 \<Rightarrow> nat \<Rightarrow> nat \<Rightarrow> nat \<Rightarrow> nat \<Rightarrow> nat \<Rightarrow> nat \<Rightarrow> nat \<Rightarrow> nat
      \<Rightarrow> error + nat \<times> bool vector3"
  and decode_octants ::
    "bool list \<Rightarrow> bool vector3 \<Rightarrow> nat \<Rightarrow> region list \<Rightarrow> nat
      \<Rightarrow> error + nat \<times> bool vector3" where
  "decode_recursive encoding out next_idx xs xe ys ye zs ze depth =
     (if depth > RECURSION_MAX_DEPTH then Inl RecursionLimitExceeded
      else if next_idx \<ge> length encoding then Inl OutOfRange
      else case read_bit encoding next_idx of
        Inl e \<Rightarrow> Inl e
      | Inr token \<Rightarrow>
          let next_idx = next_idx + 1
          in if \<not> token then
               if next_idx \<ge> length encoding then Inl OutOfRange
               else case read_bit encoding next_idx of
                 Inl e \<Rightarrow> Inl e
               | Inr value \<Rightarrow> Inr (next_idx + 1, set_range out value xs xe ys ye zs ze)
             else decode_octants encoding out next_idx
                    (octants xs (midpoint xs xe) xe ys (midpoint ys ye) ye
                             zs (midpoint zs ze) ze)
                    (depth + 1))"
| "decode_octants encoding out next_idx [] depth = Inr (next_idx, out)"
| "decode_octants encoding out next_idx ((xs, xe, ys, ye, zs, ze) # rest) depth =
     (case decode_recursive encoding out next_idx xs xe ys ye zs ze depth of
        Inl e \<Rightarrow> Inl e
      | Inr (next_idx', out') \<Rightarrow> decode_octants encoding out' next_idx' rest depth)"
  by pat_completeness auto
termination
  by (relation "measure (\<lambda>a. case a of
        Inl (encoding, out, next_idx, xs, xe, ys, ye, zs, ze, depth) \<Rightarrow>
          10 * (Suc RECURSION_MAX_DEPTH - depth)
      | Inr (encoding, out, next_idx, rest, depth) \<Rightarrow>
          10 * (Suc RECURSION_MAX_DEPTH - depth) + length rest)")
     (auto simp: octants_def RECURSION_MAX_DEPTH_def)

definition decode :: "bool \<Rightarrow> bool list \<Rightarrow> nat \<times> nat \<times> nat \<Rightarrow> error + bool vector3" where
  \<comment> \<open>\<open>ndebug\<close>: the code is built with \<^verbatim>\<open>NDEBUG\<close>, and \<^verbatim>\<open>assert\<close> expands to nothing\<close>
  "decode ndebug encoding resolution =
     (case resolution of (x_res, y_res, z_res) \<Rightarrow>
        let decoding_res = max_res_pow2_roof x_res y_res z_res;
            out = cut_volume [] decoding_res decoding_res decoding_res
        in (case decode_recursive encoding out 0 0 decoding_res 0 decoding_res
                   0 decoding_res 0 of
              Inl e \<Rightarrow> Inl e
            | Inr (end_idx, out) \<Rightarrow>
                if \<not> ndebug \<and> \<not> end_idx = length encoding then Inl AssertionFailed
                else Inr (cut_volume out x_res y_res z_res)))"

subsection \<open>The container format\<close>

text \<open>
  A byte is an \<open>8 word\<close>. The plain \<^verbatim>\<open>char\<close> of \<open>load\<close> is signed, as it is on x86-64:
  a \<^verbatim>\<open>char\<close> in an expression is promoted to the \<^verbatim>\<open>int\<close> given by \<open>sint\<close>. (With an
  unsigned \<^verbatim>\<open>char\<close> the loop \<^verbatim>\<open>for (char j = 7; j >= 0; j--)\<close> of \<open>load\<close> would not
  end.) A \<^verbatim>\<open>uint32_t\<close> is written to the stream as its four bytes in memory, least
  significant first. A file system is a map from file names to contents; a file can
  always be opened for writing.
\<close>

type_synonym byte = "8 word"
type_synonym uint32_t = "32 word"
type_synonym filesystem = "string \<rightharpoonup> byte list"

definition SIGNATURE :: "byte list" where
  \<comment> \<open>\<^verbatim>\<open>"OTBV\x96"\<close>\<close>
  "SIGNATURE = [0x4F, 0x54, 0x42, 0x56, 0x96]"

definition MAX_RESOLUTION :: nat where
  "MAX_RESOLUTION = 100000"

definition write_uint32 :: "uint32_t \<Rightarrow> byte list" where
  \<comment> \<open>\<^verbatim>\<open>stream.write(reinterpret_cast<const char *>(&v), sizeof(v))\<close>\<close>
  "write_uint32 v = [ucast v, ucast (drop_bit 8 v), ucast (drop_bit 16 v), ucast (drop_bit 24 v)]"

function pack_bits :: "bool list \<Rightarrow> nat \<Rightarrow> byte list" where
  \<comment> \<open>the loop \<^verbatim>\<open>for (i = 0; i < data_out.size(); i += 8)\<close>, from index \<open>i\<close> on\<close>
  "pack_bits data_out i =
     (if i < length data_out
      then fold (\<lambda>j c. c OR push_bit (7 - j) (of_bool (data_out ! (i + j)))) [0..<8] 0
           # pack_bits data_out (i + 8)
      else [])"
  by pat_completeness auto
termination
  by (relation "measure (\<lambda>(data_out, i). length data_out - i)") auto

declare pack_bits.simps [simp del]

definition stream_data_as_file_bytes ::
  "bool list \<Rightarrow> nat \<times> nat \<times> nat \<Rightarrow> bool \<Rightarrow> byte list" where
  "stream_data_as_file_bytes data resolution padded =
     (case resolution of (res_x, res_y, res_z) \<Rightarrow>
        let rem = length data mod 8;
            pad_len = (if rem = 0 then 0 else 8 - rem);
            meta_first = (0 :: byte);
            meta_first = meta_first OR push_bit 5 (of_nat pad_len);
            meta_first = meta_first OR push_bit 4 (of_bool padded);
            meta_res_x = (of_nat res_x :: uint32_t);
            meta_res_y = (if padded then of_nat res_y else 0 :: uint32_t);
            meta_res_z = (if padded then of_nat res_z else 0 :: uint32_t);
            meta_data_len = (of_nat (wrap_size_t (length data + pad_len) div 8) :: uint32_t);
            data_out = replicate pad_len False @ data
        in SIGNATURE @ [meta_first] @ write_uint32 meta_res_x @ write_uint32 meta_res_y
           @ write_uint32 meta_res_z @ write_uint32 meta_data_len @ pack_bits data_out 0)"

definition save :: "filesystem \<Rightarrow> string \<Rightarrow> bool vector3 \<Rightarrow> error + filesystem" where
  "save fs filename data =
     (if 0 = size_volume data then Inr fs
      else case pad_to_cube data of
        Inl e \<Rightarrow> Inl e
      | Inr padded_data \<Rightarrow>
          (case encode padded_data of
             Inl e \<Rightarrow> Inl e
           | Inr encoded_data \<Rightarrow>
               let resolution = (length data, length (data ! 0), length (data ! 0 ! 0))
               in Inr (fs(filename \<mapsto>
                    stream_data_as_file_bytes encoded_data resolution
                      (size_volume padded_data > size_volume data)))))"

definition pack_chars :: "byte list \<Rightarrow> uint32_t" where
  "pack_chars c =
     (let val = (0 :: uint32_t);
          val = val OR of_int (sint (c ! 0));
          val = val OR of_int (push_bit 8 (sint (c ! 1)));
          val = val OR of_int (push_bit 16 (sint (c ! 2)));
          val = val OR of_int (push_bit 24 (sint (c ! 3)))
      in val)"

definition load_bytes :: "bool \<Rightarrow> byte list \<Rightarrow> error + bool vector3" where
  \<comment> \<open>\<open>load\<close>, from the contents of the opened file\<close>
  "load_bytes ndebug bytes =
     (if length bytes < 5 then Inl UndefinedBehaviour
      else let sign_buffer = take 5 bytes
      in if SIGNATURE \<noteq> sign_buffer then Inl FormatError
      else if length bytes < 5 + 17 then Inl UndefinedBehaviour
      else let meta_buffer = take 17 (drop 5 bytes);
               padding_length = drop_bit 5 (sint (meta_buffer ! 0));
               is_padded = odd (drop_bit 4 (sint (meta_buffer ! 0)));
               x_res = pack_chars (drop 1 meta_buffer);
               y_res = (if \<not> is_padded then x_res else pack_chars (drop 5 meta_buffer));
               z_res = (if \<not> is_padded then x_res else pack_chars (drop 9 meta_buffer))
      in if unat x_res > MAX_RESOLUTION \<or> unat y_res > MAX_RESOLUTION
            \<or> unat z_res > MAX_RESOLUTION
         then Inl FormatError
      else let data_length = unat (pack_chars (drop 13 meta_buffer))
      in if length bytes < 5 + 17 + data_length then Inl UndefinedBehaviour
      else let data_buffer = take data_length (drop (5 + 17) bytes);
               encoding = concat (map (\<lambda>c. map (\<lambda>j. odd (drop_bit j (sint c)))
                                                [7, 6, 5, 4, 3, 2, 1, 0 :: nat])
                                      data_buffer)
      in if padding_length < 0 \<or> int (length encoding) < padding_length
         then Inl UndefinedBehaviour
      else decode ndebug (drop (nat padding_length) encoding)
             (unat x_res, unat y_res, unat z_res))"

definition load :: "bool \<Rightarrow> filesystem \<Rightarrow> string \<Rightarrow> error + bool vector3" where
  "load ndebug fs filename =
     (case fs filename of
        None \<Rightarrow> Inl IOError
      | Some bytes \<Rightarrow> load_bytes ndebug bytes)"

subsection \<open>Shapes\<close>

text \<open>
  A volume is a rectangular cuboid of resolution \<open>(X, Y, Z)\<close> when it has \<open>X\<close> planes of
  \<open>Y\<close> columns of \<open>Z\<close> cells each.
\<close>

definition cuboid :: "'a vector3 \<Rightarrow> nat \<Rightarrow> nat \<Rightarrow> nat \<Rightarrow> bool" where
  "cuboid V X Y Z \<longleftrightarrow>
     length V = X \<and> (\<forall>p \<in> set V. length p = Y \<and> (\<forall>c \<in> set p. length c = Z))"

section \<open>Rounding up to a power of two\<close>

lemma unat_size_t_less: "unat (w :: size_t) < 2 ^ 64"
  using unsigned_less [of w, where 'a = nat] by simp

lemma unat_2p:
  assumes "k < LENGTH('a::len)"
  shows "unat (2 ^ k :: 'a word) = 2 ^ k"
proof -
  have "unat (of_nat (2 ^ k) :: 'a word) = 2 ^ k mod 2 ^ LENGTH('a)"
    by (rule unat_of_nat)
  also have "\<dots> = 2 ^ k"
    using assms by (intro mod_less power_strict_increasing) simp_all
  finally show ?thesis by simp
qed


lemma pow2_roof_loop_fixpoint:
  fixes number :: size_t
  assumes fx: "number OR drop_bit s number = number"
    and s: "0 < s"
    and top: "\<And>i. i \<le> m \<Longrightarrow> m < i + s \<Longrightarrow> bit number i"
    and i: "i \<le> m"
  shows "bit number i"
  using i
proof (induction "m - i" arbitrary: i rule: less_induct)
  case less
  show ?case
  proof (cases "m < i + s")
    case True
    with less.prems show ?thesis by (rule top)
  next
    case False
    then have "i + s \<le> m" by simp
    moreover have "m - (i + s) < m - i"
      using s \<open>i + s \<le> m\<close> by simp
    ultimately have "bit number (i + s)"
      by (rule less.hyps [rotated])
    then have "bit (drop_bit s number) i"
      by (simp add: bit_drop_bit_eq add.commute)
    then have "bit (number OR drop_bit s number) i"
      by (simp add: bit_or_iff)
    then show ?thesis by (simp add: fx)
  qed
qed

lemma pow2_roof_loop_mask:
  fixes number shift :: size_t
  assumes "shift = 2 ^ k" "k \<le> 6" "m < 64"
    and "\<And>i. bit number i \<Longrightarrow> i \<le> m"
    and "\<And>i. i \<le> m \<Longrightarrow> m < i + 2 ^ k \<Longrightarrow> bit number i"
  shows "pow2_roof_loop number shift = mask (Suc m)"
  using assms
proof (induction number shift arbitrary: k rule: pow2_roof_loop.induct)
  case (1 number shift)
  define number' where "number' = number OR drop_bit (unat shift) number"
  have us: "unat shift = 2 ^ k"
    using \<open>shift = 2 ^ k\<close> \<open>k \<le> 6\<close> by (simp add: unat_2p)
  show ?case
  proof (cases "number < number'")
    case True
    then have "number' \<noteq> number" by auto
    then obtain i where "bit (drop_bit (2 ^ k) number) i"
      unfolding number'_def us
      by (metis bit_or_iff bit_word_eqI)
    then have "bit number (2 ^ k + i)"
      by (simp add: bit_drop_bit_eq)
    then have "2 ^ k + i \<le> m" by (rule "1.prems"(4))
    then have "(2::nat) ^ k < 2 ^ 6"
      using \<open>m < 64\<close> by simp
    then have k5: "k < 6"
      by (intro power_less_imp_less_exp [of 2]) simp_all
    have "pow2_roof_loop number' (shift * 2) = mask (Suc m)"
    proof (rule "1.IH" [OF refl number'_def refl, where k = "Suc k"])
      show "number < number'" by (rule True)
      show "shift * 2 = 2 ^ Suc k" using \<open>shift = 2 ^ k\<close> by simp
      show "Suc k \<le> 6" using k5 by simp
      show "m < 64" by fact
      show "i \<le> m" if "bit number' i" for i
        using that "1.prems"(4) [of i] "1.prems"(4) [of "2 ^ k + i"]
        by (auto simp: number'_def us bit_or_iff bit_drop_bit_eq)
      show "bit number' i" if "i \<le> m" "m < i + 2 ^ Suc k" for i
      proof (cases "m < i + 2 ^ k")
        case True
        then show ?thesis
          using that "1.prems"(5) [of i] by (simp add: number'_def bit_or_iff)
      next
        case False
        then have "bit number (2 ^ k + i)"
          using that by (intro "1.prems"(5)) auto
        then show ?thesis
          by (simp add: number'_def us bit_or_iff bit_drop_bit_eq)
      qed
    qed
    then show ?thesis
      using True by (subst pow2_roof_loop.simps) (simp add: number'_def Let_def)
  next
    case False
    moreover have "number \<le> number'"
      unfolding number'_def by (rule le_word_or2)
    ultimately have fx: "number OR drop_bit (2 ^ k) number = number"
      unfolding number'_def us by simp
    have "number = mask (Suc m)"
    proof (rule bit_word_eqI)
      fix i assume "i < LENGTH(64)"
      show "bit number i = bit (mask (Suc m) :: size_t) i"
      proof (cases "i \<le> m")
        case True
        have "bit number i"
        proof (rule pow2_roof_loop_fixpoint [OF fx])
          show "(0::nat) < 2 ^ k" by simp
          show "bit number j" if "j \<le> m" "m < j + 2 ^ k" for j
            using that by (rule "1.prems"(5))
          show "i \<le> m" by (rule True)
        qed
        then show ?thesis
          using True \<open>m < 64\<close> by (simp add: bit_mask_iff)
      next
        case False
        then have "\<not> bit number i"
          using "1.prems"(4) [of i] by auto
        then show ?thesis
          using False by (simp add: bit_mask_iff)
      qed
    qed
    moreover have "pow2_roof_loop number shift = number"
      using False by (subst pow2_roof_loop.simps) (simp add: number'_def Let_def)
    ultimately show ?thesis by simp
  qed
qed


lemma bit_word_iff_odd_unat: "bit (w :: 'a::len word) i \<longleftrightarrow> odd (unat w div 2 ^ i)"
proof -
  have "bit (unat w) i \<longleftrightarrow> bit w i"
    by (auto simp: bit_unsigned_iff dest: bit_imp_le_length)
  then show ?thesis by (simp add: bit_iff_odd)
qed

lemma top_bit_set:
  assumes "2 ^ m \<le> unat w" "unat w < 2 ^ Suc m"
  shows "bit (w :: 'a::len word) m"
proof -
  have "unat w div 2 ^ m = 1"
    using assms by (intro div_nat_eqI) simp_all
  then show ?thesis by (simp add: bit_word_iff_odd_unat)
qed

lemma above_top_bit_clear:
  assumes "unat w < 2 ^ Suc m" "bit (w :: 'a::len word) i"
  shows "i \<le> m"
proof (rule ccontr)
  assume "\<not> i \<le> m"
  then have "Suc m \<le> i" by simp
  then have "(2::nat) ^ Suc m \<le> 2 ^ i"
    by (intro power_increasing) simp_all
  with assms(1) have "unat w div 2 ^ i = 0" by simp
  with assms(2) show False by (simp add: bit_word_iff_odd_unat)
qed

lemma ex_top_bit:
  assumes "0 < (n::nat)"
  shows "\<exists>m. 2 ^ m \<le> n \<and> n < 2 ^ Suc m"
  using assms
proof (induction n rule: less_induct)
  case (less n)
  show ?case
  proof (cases "n = 1")
    case True
    then have "2 ^ 0 \<le> n \<and> n < 2 ^ Suc 0" by simp
    then show ?thesis by blast
  next
    case False
    with less.prems have "0 < n div 2" "n div 2 < n" by auto
    then obtain m where "2 ^ m \<le> n div 2" "n div 2 < 2 ^ Suc m"
      using less.IH by blast
    then have "2 ^ Suc m \<le> n \<and> n < 2 ^ Suc (Suc m)" by auto
    then show ?thesis by blast
  qed
qed

lemma pow2_AND_pred: "(2 ^ k :: 'a::len word) AND (2 ^ k - 1) = 0"
  by (rule bit_word_eqI) (auto simp: bit_and_iff bit_exp_iff mask_eq_exp_minus_1 [symmetric] bit_mask_iff)

lemma pow2_roof_power: "pow2_roof (2 ^ k) = 2 ^ k"
  by (simp add: pow2_roof_def pow2_AND_pred)

lemma word_eq_2p:
  assumes "unat (w :: 'a::len word) = 2 ^ m"
  shows "w = 2 ^ m"
proof -
  have "w = of_nat (unat w)" by simp
  also have "\<dots> = 2 ^ m" by (simp only: assms) simp
  finally show ?thesis .
qed

lemma AND_pred_nonzero:
  assumes lo: "2 ^ m < unat w" and hi: "unat w < 2 ^ Suc m"
  shows "(w :: 'a::len word) AND (w - 1) \<noteq> 0"
proof -
  have "unat (w - 1) = unat w - 1"
    using lo by (simp add: unat_sub_if' unat_gt_0 [symmetric] )
  then have "2 ^ m \<le> unat (w - 1)" "unat (w - 1) < 2 ^ Suc m"
    using lo hi by simp_all
  then have "bit (w - 1) m" by (rule top_bit_set)
  moreover have "bit w m"
    using lo hi by (intro top_bit_set) simp_all
  ultimately have "bit (w AND (w - 1)) m" by (simp add: bit_and_iff)
  then show ?thesis by auto
qed

lemma AND_pred_zero_imp_power:
  assumes "(w :: 'a::len word) AND (w - 1) = 0" "2 ^ m \<le> unat w" "unat w < 2 ^ Suc m"
  shows "unat w = 2 ^ m"
  using assms AND_pred_nonzero [of m w] by (cases "unat w = 2 ^ m") auto

lemma pow2_roof_not_power:
  fixes number :: size_t
  assumes "number AND (number - 1) \<noteq> 0" "2 ^ m \<le> unat number" "unat number < 2 ^ Suc m"
  shows "pow2_roof number = 2 ^ Suc m"
proof -
  have "(2::nat) ^ m < 2 ^ 64"
    using assms(2) unat_size_t_less [of number] by simp
  then have m: "m < 64"
    by (intro power_less_imp_less_exp [of 2]) simp_all
  have "pow2_roof_loop number 1 = mask (Suc m)"
  proof (rule pow2_roof_loop_mask [where k = 0])
    show "(1::size_t) = 2 ^ 0" by simp
    show "(0::nat) \<le> 6" by simp
    show "m < 64" by (rule m)
    show "i \<le> m" if "bit number i" for i
      using assms(3) that by (rule above_top_bit_clear)
    show "bit number i" if "i \<le> m" "m < i + 2 ^ 0" for i
    proof -
      from that have "i = m" by simp
      then show ?thesis using top_bit_set [OF assms(2,3)] by simp
    qed
  qed
  then show ?thesis
    using assms(1) by (simp add: pow2_roof_def mask_eq_exp_minus_1)
qed

lemma pow2_roof_smallest:
  fixes n :: size_t
  assumes "1 \<le> unat n" "unat n \<le> 2 ^ 63"
  shows "\<exists>k. unat (pow2_roof n) = 2 ^ k \<and> unat n \<le> 2 ^ k \<and> (\<forall>j. unat n \<le> 2 ^ j \<longrightarrow> k \<le> j)"
proof -
  obtain m where m: "2 ^ m \<le> unat n" "unat n < 2 ^ Suc m"
    using ex_top_bit [of "unat n"] assms(1) by auto
  show ?thesis
  proof (cases "n AND (n - 1) = 0")
    case True
    then have eq: "unat n = 2 ^ m"
      using m by (rule AND_pred_zero_imp_power)
    have "pow2_roof n = n"
      using True by (simp add: pow2_roof_def)
    moreover have "m \<le> j" if "unat n \<le> 2 ^ j" for j
      using that unfolding eq by (simp add: power_le_imp_le_exp)
    ultimately show ?thesis
      using eq by auto
  next
    case False
    then have roof: "pow2_roof n = 2 ^ Suc m"
      using m by (rule pow2_roof_not_power)
    have "unat n \<noteq> 2 ^ m"
      using False pow2_AND_pred [of m, where 'a = 64] by (auto dest: word_eq_2p)
    with m have lo: "2 ^ m < unat n" by simp
    with assms(2) have "(2::nat) ^ m < 2 ^ 63" by simp
    then have "m < 63"
      by (intro power_less_imp_less_exp [of 2]) simp_all
    then have "unat (pow2_roof n) = 2 ^ Suc m"
      unfolding roof by (intro unat_2p) simp
    moreover have "Suc m \<le> j" if "unat n \<le> 2 ^ j" for j
    proof -
      from lo that have "(2::nat) ^ m < 2 ^ j" by (rule less_le_trans)
      then have "m < j" by (intro power_less_imp_less_exp [of 2]) simp_all
      then show ?thesis by simp
    qed
    ultimately show ?thesis
      using m(2) by (intro exI [of _ "Suc m"]) auto
  qed
qed

text \<open>
  Claim C6, as amended. For every \<open>n\<close> with \<open>1 \<le> n \<le> 2 ^ 63\<close>, \<open>pow2_roof n\<close> is the
  smallest power of two that is at least \<open>n\<close>; \<open>pow2_roof\<close> returns every power of two
  unchanged; and \<open>pow2_roof 5 = 8\<close>, \<open>pow2_roof 16 = 16\<close>, \<open>pow2_roof 17 = 32\<close>.
\<close>

theorem pow2_roof_correct:
  fixes n :: size_t
  shows "(1 \<le> unat n \<and> unat n \<le> 2 ^ 63 \<longrightarrow>
           (\<exists>k. unat (pow2_roof n) = 2 ^ k \<and> unat n \<le> 2 ^ k
                \<and> (\<forall>j. unat n \<le> 2 ^ j \<longrightarrow> k \<le> j)))
         \<and> pow2_roof (2 ^ i) = 2 ^ i
         \<and> pow2_roof 5 = 8 \<and> pow2_roof 16 = 16 \<and> pow2_roof 17 = 32"
proof (intro conjI impI)
  assume "1 \<le> unat n \<and> unat n \<le> 2 ^ 63"
  then show "\<exists>k. unat (pow2_roof n) = 2 ^ k \<and> unat n \<le> 2 ^ k
      \<and> (\<forall>j. unat n \<le> 2 ^ j \<longrightarrow> k \<le> j)"
    by (intro pow2_roof_smallest) simp_all
next
  show "pow2_roof (2 ^ i) = 2 ^ i"
    by (rule pow2_roof_power)
next
  show "pow2_roof 5 = 8" "pow2_roof 16 = 16" "pow2_roof 17 = 32"
    by (simp_all add: pow2_roof_def pow2_roof_loop.simps)
qed

theorem pow2_roof_correct_witness:
  "1 \<le> unat (100000 :: size_t) \<and> unat (100000 :: size_t) \<le> 2 ^ 63
   \<and> (\<exists>k. unat (pow2_roof 100000) = 2 ^ k \<and> unat (100000 :: size_t) \<le> 2 ^ k
          \<and> (\<forall>j. unat (100000 :: size_t) \<le> 2 ^ j \<longrightarrow> k \<le> j))"
  using pow2_roof_correct [of 100000] by simp

text \<open>
  Above \<open>2 ^ 63\<close> no power of two fits \<^verbatim>\<open>size_t\<close>, and the result wraps around to 0: the
  claim as stated for every \<open>n \<ge> 1\<close> fails at \<open>n = 2 ^ 63 + 1\<close>.
\<close>

theorem pow2_roof_above_half_range:
  "1 \<le> unat (2 ^ 63 + 1 :: size_t) \<and> unat (pow2_roof (2 ^ 63 + 1)) < unat (2 ^ 63 + 1 :: size_t)"
  by (simp add: pow2_roof_def pow2_roof_loop.simps)

section \<open>Cuboids, resizing and the size of a volume\<close>

lemma cuboidD:
  assumes "cuboid V X Y Z"
  shows "length V = X"
    and "i < X \<Longrightarrow> length (V ! i) = Y"
    and "i < X \<Longrightarrow> j < Y \<Longrightarrow> length (V ! i ! j) = Z"
proof -
  show "length V = X"
    using assms by (simp add: cuboid_def)
  then have "i < X \<Longrightarrow> V ! i \<in> set V" by simp
  with assms show Y: "i < X \<Longrightarrow> length (V ! i) = Y"
    by (simp add: cuboid_def)
  assume "i < X" "j < Y"
  with Y \<open>i < X \<Longrightarrow> V ! i \<in> set V\<close> have "V ! i \<in> set V" "V ! i ! j \<in> set (V ! i)"
    by simp_all
  with assms show "length (V ! i ! j) = Z"
    by (simp add: cuboid_def)
qed

lemma cuboidI:
  assumes "length V = X"
    and "\<And>i. i < X \<Longrightarrow> length (V ! i) = Y"
    and "\<And>i j. i < X \<Longrightarrow> j < Y \<Longrightarrow> length (V ! i ! j) = Z"
  shows "cuboid V X Y Z"
  unfolding cuboid_def using assms by (metis in_set_conv_nth)

lemma cuboid_eqI:
  assumes A: "cuboid A X Y Z" and B: "cuboid B X Y Z"
    and eq: "\<And>i j k. i < X \<Longrightarrow> j < Y \<Longrightarrow> k < Z \<Longrightarrow> A ! i ! j ! k = B ! i ! j ! k"
  shows "A = B"
proof (rule nth_equalityI)
  show "length A = length B"
    using A B by (simp add: cuboidD)
  fix i assume "i < length A"
  then have i: "i < X" using A by (simp add: cuboidD)
  show "A ! i = B ! i"
  proof (rule nth_equalityI)
    show "length (A ! i) = length (B ! i)"
      using A B i by (simp add: cuboidD)
    fix j assume "j < length (A ! i)"
    then have j: "j < Y" using A i by (simp add: cuboidD)
    show "A ! i ! j = B ! i ! j"
    proof (rule nth_equalityI)
      show "length (A ! i ! j) = length (B ! i ! j)"
        using A B i j by (simp add: cuboidD)
      fix k assume "k < length (A ! i ! j)"
      then have "k < Z" using A i j by (simp add: cuboidD)
      with i j show "A ! i ! j ! k = B ! i ! j ! k" by (rule eq)
    qed
  qed
qed

lemma length_resize [simp]: "length (resize v n d) = n"
  by (simp add: resize_def)

lemma nth_resize:
  "i < n \<Longrightarrow> resize v n d ! i = (if i < length v then v ! i else d)"
  by (simp add: resize_def nth_append)

lemma resize_same [simp]: "resize v (length v) d = v"
  by (simp add: resize_def)

lemma cuboid_cut_volume: "cuboid (cut_volume V x y z) x y z"
  by (auto simp: cut_volume_def cuboid_def)

lemma nth_cut_volume:
  assumes "i < x" "j < y" "k < z"
  shows "cut_volume V x y z ! i ! j ! k =
           (if i < length V \<and> j < length (V ! i) \<and> k < length (V ! i ! j)
            then V ! i ! j ! k else False)"
  using assms by (simp add: cut_volume_def nth_resize)

lemma wrap_size_t_less [simp]: "n < 2 ^ 64 \<Longrightarrow> wrap_size_t n = n"
  by (simp add: wrap_size_t_def)

lemma wrap_size_t_0 [simp]: "wrap_size_t 0 = 0"
  by (simp add: wrap_size_t_def)

lemma size_volume_empty_axis:
  assumes "cuboid V X Y Z" "X = 0 \<or> Y = 0 \<or> Z = 0"
  shows "size_volume V = 0"
proof (cases "X = 0")
  case True
  with assms(1) show ?thesis by (simp add: size_volume_def cuboidD)
next
  case X: False
  then have Y: "length (V ! 0) = Y"
    using assms(1) by (simp add: cuboidD)
  show ?thesis
  proof (cases "Y = 0")
    case True
    with X Y assms(1) show ?thesis by (simp add: size_volume_def Let_def)
  next
    case False
    with X assms have "length (V ! 0 ! 0) = 0"
      by (simp add: cuboidD)
    with Y show ?thesis by (simp add: size_volume_def Let_def)
  qed
qed

section \<open>Saving an empty volume\<close>

text \<open>
  Claim C8. For every volume of total size 0 (a cuboid with an axis of length zero),
  \<open>save\<close> returns normally and leaves the file system as it is: nothing is written,
  and the file named is neither created nor truncated.
\<close>

theorem save_empty_volume:
  assumes "cuboid V X Y Z" "X = 0 \<or> Y = 0 \<or> Z = 0"
  shows "save fs filename V = Inr fs"
  using size_volume_empty_axis [OF assms] by (simp add: save_def)

theorem save_empty_volume_witness:
  "cuboid [[], [] :: bool list list] 2 0 5 \<and> ((2::nat) = 0 \<or> (0::nat) = 0 \<or> (5::nat) = 0)
   \<and> save Map.empty ''volume.otbv'' [[], []] = Inr Map.empty"
proof -
  have c: "cuboid [[], [] :: bool list list] 2 0 5"
    by (simp add: cuboid_def)
  have "save Map.empty ''volume.otbv'' [[], []] = Inr Map.empty"
    by (rule save_empty_volume [OF c]) simp
  with c show ?thesis by simp
qed

section \<open>The cursor after the root call\<close>

text \<open>
  The root call on the three bits \<open>0 0 0\<close> at resolution \<open>(1, 1, 1)\<close> reads a leaf and
  completes with the cursor at 2.
\<close>

lemma decode_recursive_trailing_bit:
  "decode_recursive [False, False, False] (cut_volume [] 1 1 1) 0 0 1 0 1 0 1 0
     = Inr (2, [[[False]]])"
  by (simp add: cut_volume_def resize_def read_bit_def set_range_def RECURSION_MAX_DEPTH_def)

lemma max_res_pow2_roof_1: "max_res_pow2_roof 1 1 1 = 1"
  by (simp add: max_res_pow2_roof_def pow2_roof_def)

text \<open>
  Built with \<^verbatim>\<open>NDEBUG\<close>, \<open>decode\<close> returns a volume whenever the root call completes,
  wherever the cursor ends. Built without it, a cursor that differs from the length of
  the encoding aborts the process.
\<close>

lemma decode_ndebug_ignores_cursor:
  assumes "decoding_res = max_res_pow2_roof x_res y_res z_res"
    and "decode_recursive encoding (cut_volume [] decoding_res decoding_res decoding_res) 0
           0 decoding_res 0 decoding_res 0 decoding_res 0 = Inr (end_idx, out)"
  shows "decode True encoding (x_res, y_res, z_res) = Inr (cut_volume out x_res y_res z_res)"
  using assms by (simp add: decode_def)

lemma decode_assert_aborts:
  assumes "decoding_res = max_res_pow2_roof x_res y_res z_res"
    and "decode_recursive encoding (cut_volume [] decoding_res decoding_res decoding_res) 0
           0 decoding_res 0 decoding_res 0 decoding_res 0 = Inr (end_idx, out)"
    and "end_idx \<noteq> length encoding"
  shows "decode False encoding (x_res, y_res, z_res) = Inl AssertionFailed"
  using assms by (simp add: decode_def)

text \<open>
  Claim C3 says that \<open>decode\<close> surfaces an error to its caller when the root call
  completes with a cursor that differs from the length of the encoding. The code states
  the condition as an \<^verbatim>\<open>assert\<close> only, and does not do so. On the three bits \<open>0 0 0\<close> at
  resolution \<open>(1, 1, 1)\<close> the cursor ends at 2 and the length is 3: built with \<^verbatim>\<open>NDEBUG\<close>,
  \<open>decode\<close> returns the volume of one cell as if the encoding were well formed; built
  without it, the process is aborted, and no error reaches the caller.
\<close>

theorem decode_trailing_bit_not_reported:
  "decode_recursive [False, False, False] (cut_volume [] 1 1 1) 0 0 1 0 1 0 1 0
     = Inr (2, [[[False]]])
   \<and> (2::nat) \<noteq> length [False, False, False]
   \<and> decode True [False, False, False] (1, 1, 1) = Inr [[[False]]]
   \<and> decode False [False, False, False] (1, 1, 1) = Inl AssertionFailed"
proof -
  note root = decode_recursive_trailing_bit
  note res = max_res_pow2_roof_1 [symmetric]
  have "decode True [False, False, False] (1, 1, 1) = Inr (cut_volume [[[False]]] 1 1 1)"
    using res root by (rule decode_ndebug_ignores_cursor)
  then have "decode True [False, False, False] (1, 1, 1) = Inr [[[False]]]"
    by (simp add: cut_volume_def resize_def)
  moreover have "decode False [False, False, False] (1, 1, 1) = Inl AssertionFailed"
    using res root by (rule decode_assert_aborts) simp
  ultimately show ?thesis
    using root by simp
qed

section \<open>The header written by save\<close>

lemma upt_0_8: "[0..<8] = [0, 1, 2, 3, 4, 5, 6, 7]"
  by (simp add: upt_rec)

lemma stream_layout:
  "stream_data_as_file_bytes data (x, y, z) padded ! 5 =
     push_bit 5 (of_nat (if length data mod 8 = 0 then 0 else 8 - length data mod 8))
       OR push_bit 4 (of_bool padded)"
  "take 4 (drop 6 (stream_data_as_file_bytes data (x, y, z) padded)) = write_uint32 (of_nat x)"
  "take 4 (drop 10 (stream_data_as_file_bytes data (x, y, z) padded)) =
     write_uint32 (if padded then of_nat y else 0)"
  "take 4 (drop 14 (stream_data_as_file_bytes data (x, y, z) padded)) =
     write_uint32 (if padded then of_nat z else 0)"
  by (simp_all add: stream_data_as_file_bytes_def SIGNATURE_def write_uint32_def Let_def)

lemma padded_flag: 
  "bit (stream_data_as_file_bytes data (x, y, z) padded ! 5) 4 \<longleftrightarrow> padded"
  by (simp add: stream_layout(1) bit_or_iff bit_push_bit_iff)

lemma replicate_numeral: "replicate (numeral k) x = x # replicate (pred_numeral k) x"
  by (simp add: numeral_eq_Suc)

lemma size_volume_single: "size_volume [[[v]]] = 1"
  by (simp add: size_volume_def wrap_size_t_def)

lemma pad_to_cube_single: "pad_to_cube [[[v]]] = Inr [[[v]]]"
  by (simp add: pad_to_cube_def deep_copy_def pad_to_cube_inplace_def size_volume_single
      max_res_pow2_roof_def pow2_roof_def resize_def)

lemma encode_single: "encode [[[v]]] = Inr [False, v]"
  by (simp add: encode_def RECURSION_MAX_DEPTH_def subvolume_size_def sub_size_t_def
      wrap_size_t_def is_subvolume_homogeneous_def)

lemma stream_single:
  "stream_data_as_file_bytes [False, True] (1, 1, 1) False =
     [0x4F, 0x54, 0x42, 0x56, 0x96, 0xC0, 1, 0, 0, 0, 0, 0, 0, 0, 0, 0, 0, 0, 1, 0, 0, 0, 1]"
  by (simp add: stream_data_as_file_bytes_def SIGNATURE_def write_uint32_def wrap_size_t_def
      pack_bits.simps upt_0_8 replicate_numeral Let_def)

lemma save_single_cell:
  "save Map.empty ''volume.otbv'' [[[True]]] =
     Inr [''volume.otbv'' \<mapsto>
       [0x4F, 0x54, 0x42, 0x56, 0x96, 0xC0, 1, 0, 0, 0, 0, 0, 0, 0, 0, 0, 0, 0, 1, 0, 0, 0, 1]]"
  using stream_single
  by (simp add: save_def size_volume_single pad_to_cube_single encode_single)

text \<open>
  Claim C2, as amended. In every container written by \<open>save\<close>, when the padded-to-cube
  flag (bit 4 of the flags byte) is false, the y-resolution field (bytes 10--13) and
  the z-resolution field (bytes 14--17) both hold zero.
\<close>

theorem save_unpadded_header:
  assumes "save fs filename V = Inr fs'" "0 \<noteq> size_volume V"
  shows "\<exists>bytes. fs' filename = Some bytes
           \<and> (\<not> bit (bytes ! 5) 4 \<longrightarrow>
                take 4 (drop 10 bytes) = [0, 0, 0, 0] \<and> take 4 (drop 14 bytes) = [0, 0, 0, 0])"
proof (cases "pad_to_cube V")
  case (Inl e)
  with assms show ?thesis by (simp add: save_def)
next
  case padded_data: (Inr padded_data)
  show ?thesis
  proof (cases "encode padded_data")
    case (Inl e)
    with assms padded_data show ?thesis by (simp add: save_def)
  next
    case (Inr encoded_data)
    with assms padded_data
    have "fs' = fs(filename \<mapsto> stream_data_as_file_bytes encoded_data
              (length V, length (V ! 0), length (V ! 0 ! 0))
              (size_volume V < size_volume padded_data))"
      by (simp add: save_def)
    then show ?thesis
      by (simp add: padded_flag stream_layout(3,4) write_uint32_def)
  qed
qed


theorem save_unpadded_header_witness:
  "save Map.empty ''volume.otbv'' [[[True]]] =
     Inr [''volume.otbv'' \<mapsto>
       [0x4F, 0x54, 0x42, 0x56, 0x96, 0xC0, 1, 0, 0, 0, 0, 0, 0, 0, 0, 0, 0, 0, 1, 0, 0, 0, 1]]
   \<and> 0 \<noteq> size_volume [[[True]]]
   \<and> (\<exists>bytes. [''volume.otbv'' \<mapsto>
       [0x4F, 0x54, 0x42, 0x56, 0x96, 0xC0 :: byte, 1, 0, 0, 0, 0, 0, 0, 0, 0, 0, 0, 0, 1, 0, 0, 0, 1]]
         ''volume.otbv'' = Some bytes
           \<and> (\<not> bit (bytes ! 5) 4 \<longrightarrow>
                take 4 (drop 10 bytes) = [0, 0, 0, 0] \<and> take 4 (drop 14 bytes) = [0, 0, 0, 0]))"
proof -
  have nonempty: "0 \<noteq> size_volume [[[True]]]"
    by (simp add: size_volume_def wrap_size_t_def)
  from save_single_cell nonempty save_unpadded_header [OF save_single_cell nonempty]
  show ?thesis by blast
qed


text \<open>
  The claim as stated, that the two fields hold the value of the x-resolution field,
  fails for the volume of one cell: the flag is false, the x field holds 1 and the y
  field holds 0.
\<close>

theorem save_unpadded_header_not_x:
  "save Map.empty ''volume.otbv'' [[[True]]] =
     Inr [''volume.otbv'' \<mapsto>
       [0x4F, 0x54, 0x42, 0x56, 0x96, 0xC0, 1, 0, 0, 0, 0, 0, 0, 0, 0, 0, 0, 0, 1, 0, 0, 0, 1]]
   \<and> \<not> bit ([0x4F, 0x54, 0x42, 0x56, 0x96, 0xC0 :: byte, 1, 0, 0, 0, 0, 0, 0, 0, 0, 0, 0, 0,
                1, 0, 0, 0, 1] ! 5) 4
   \<and> take 4 (drop 10 [0x4F, 0x54, 0x42, 0x56, 0x96, 0xC0 :: byte, 1, 0, 0, 0, 0, 0, 0, 0,
                         0, 0, 0, 0, 1, 0, 0, 0, 1])
     \<noteq> take 4 (drop 6 [0x4F, 0x54, 0x42, 0x56, 0x96, 0xC0 :: byte, 1, 0, 0, 0, 0, 0, 0, 0,
                          0, 0, 0, 0, 1, 0, 0, 0, 1])"
  using save_single_cell by simp

section \<open>Octrees\<close>

text \<open>
  The encoding is the pre-order traversal of an octree. The tree itself never exists in
  the program; it is made explicit here to state what a bit sequence describes.
  \<open>bits_of\<close> is the bit sequence of a tree: a leaf is the token 0 and its value, a branch
  is the token 1 and its eight children in order. \<open>height\<close> counts the levels below
  the root. A tree \<open>represents\<close> a region of a volume when every leaf stands for a
  subregion whose cells all hold the leaf's value and every branch stands for a
  subregion that holds both values, and so at least two cells with different values,
  its children standing for the eight octants in the order of the code. A tree is
  \<open>canonical\<close> when no branch has eight leaves of one and the same value as children.
\<close>

datatype octree = Leaf bool | Branch "octree list"

fun bits_of :: "octree \<Rightarrow> bool list" where
  "bits_of (Leaf v) = [False, v]"
| "bits_of (Branch ts) = True # concat (map bits_of ts)"

fun height :: "octree \<Rightarrow> nat" where
  "height (Leaf v) = 0"
| "height (Branch ts) = Suc (Max (insert 0 (height ` set ts)))"

fun wf_octree :: "octree \<Rightarrow> bool" where
  "wf_octree (Leaf v) = True"
| "wf_octree (Branch ts) = (length ts = 8 \<and> (\<forall>t \<in> set ts. wf_octree t))"

fun canonical :: "octree \<Rightarrow> bool" where
  "canonical (Leaf v) = True"
| "canonical (Branch ts) = ((\<forall>v. \<exists>t \<in> set ts. t \<noteq> Leaf v) \<and> (\<forall>t \<in> set ts. canonical t))"

definition suboctants :: "region \<Rightarrow> region list" where
  "suboctants r = (case r of (xs, xe, ys, ye, zs, ze) \<Rightarrow>
     octants xs (midpoint xs xe) xe ys (midpoint ys ye) ye zs (midpoint zs ze) ze)"

definition uniform :: "bool vector3 \<Rightarrow> region \<Rightarrow> bool \<Rightarrow> bool" where
  "uniform data r v = (case r of (xs, xe, ys, ye, zs, ze) \<Rightarrow>
     \<forall>x \<in> {xs..<xe}. \<forall>y \<in> {ys..<ye}. \<forall>z \<in> {zs..<ze}. data ! x ! y ! z = v)"

primrec represents :: "bool vector3 \<Rightarrow> octree \<Rightarrow> region \<Rightarrow> bool"
  and represents_list :: "bool vector3 \<Rightarrow> octree list \<Rightarrow> region list \<Rightarrow> bool" where
  "represents data (Leaf v) r = uniform data r v"
| "represents data (Branch ts) r =
     (\<not> uniform data r True \<and> \<not> uniform data r False
      \<and> represents_list data ts (suboctants r))"
| "represents_list data [] rs = (rs = [])"
| "represents_list data (t # ts) rs =
     (case rs of [] \<Rightarrow> False | r # rs' \<Rightarrow> represents data t r \<and> represents_list data ts rs')"

definition region_within :: "nat \<Rightarrow> region \<Rightarrow> bool" where
  "region_within n r = (case r of (xs, xe, ys, ye, zs, ze) \<Rightarrow>
     xs \<le> xe \<and> xe \<le> n \<and> ys \<le> ye \<and> ye \<le> n \<and> zs \<le> ze \<and> ze \<le> n)"

section \<open>Index arithmetic without wrap-around\<close>

lemma sub_size_t_exact:
  assumes "b \<le> a" "a < 2 ^ 64"
  shows "sub_size_t a b = a - b"
proof -
  define M :: nat where "M = 2 ^ 64"
  from assms have "b < M" "a < M" by (simp_all add: M_def)
  then have "sub_size_t a b = (a + M - b) mod M"
    by (simp add: sub_size_t_def wrap_size_t_def M_def)
  also from assms have "a + M - b = (a - b) + M" by simp
  also have "((a - b) + M) mod M = a - b"
    using \<open>a < M\<close> by simp
  finally show ?thesis .
qed

lemma extent_cube_bound:
  fixes a b c n :: nat
  assumes "a \<le> n" "b \<le> n" "c \<le> n" "n \<le> 2 ^ 21"
  shows "a * b * c < 2 ^ 64"
proof -
  have "a * b * c \<le> n * n * n"
    using assms by (intro mult_le_mono) simp_all
  also have "\<dots> \<le> 2 ^ 21 * 2 ^ 21 * 2 ^ 21"
    using assms by (intro mult_le_mono) simp_all
  also have "\<dots> < (2 ^ 64 :: nat)" by simp
  finally show ?thesis .
qed

lemma subvolume_size_exact:
  assumes "region_within n (xs, xe, ys, ye, zs, ze)" "n \<le> 2 ^ 21"
  shows "subvolume_size xs xe ys ye zs ze = (xe - xs) * (ye - ys) * (ze - zs)"
proof -
  from assms have le: "xs \<le> xe" "ys \<le> ye" "zs \<le> ze" "xe \<le> n" "ye \<le> n" "ze \<le> n"
    by (simp_all add: region_within_def)
  have "n < 2 ^ 64"
    using assms(2) by (rule le_less_trans) simp
  with le have "xe < 2 ^ 64" "ye < 2 ^ 64" "ze < 2 ^ 64" by simp_all
  with le have "subvolume_size xs xe ys ye zs ze
      = wrap_size_t ((xe - xs) * (ye - ys) * (ze - zs))"
    by (simp add: subvolume_size_def sub_size_t_exact)
  moreover have "(xe - xs) * (ye - ys) * (ze - zs) < 2 ^ 64"
    using le assms(2) by (intro extent_cube_bound [of _ n]) simp_all
  ultimately show ?thesis by simp
qed

lemma midpoint_exact:
  assumes "s \<le> e" "e \<le> n" "n \<le> 2 ^ 21"
  shows "midpoint s e = (s + e) div 2"
proof -
  have "e + s \<le> 2 ^ 21 + 2 ^ 21"
    using assms by (intro add_mono) simp_all
  also have "\<dots> < (2 ^ 64 :: nat)" by simp
  finally show ?thesis
    by (simp add: midpoint_def add.commute)
qed

lemma midpoint_between:
  assumes "s \<le> e" "e \<le> n" "n \<le> 2 ^ 21"
  shows "s \<le> midpoint s e" "midpoint s e \<le> e"
  using assms by (simp_all add: midpoint_exact [OF assms])

lemma region_within_suboctants:
  assumes "region_within n r" "n \<le> 2 ^ 21" "r' \<in> set (suboctants r)"
  shows "region_within n r'"
proof -
  obtain xs xe ys ye zs ze where r: "r = (xs, xe, ys, ye, zs, ze)"
    by (cases r) auto
  with assms(1) have le: "xs \<le> xe" "ys \<le> ye" "zs \<le> ze" "xe \<le> n" "ye \<le> n" "ze \<le> n"
    by (simp_all add: region_within_def)
  note m = midpoint_between [OF le(1) le(4) assms(2)] midpoint_between [OF le(2) le(5) assms(2)]
    midpoint_between [OF le(3) le(6) assms(2)]
  from assms(3) show ?thesis
    unfolding r suboctants_def octants_def region_within_def
    using le m by auto
qed

lemma length_suboctants [simp]: "length (suboctants r) = 8"
  by (cases r) (simp add: suboctants_def octants_def)

lemma uniform_suboctants:
  assumes "region_within n r" "n \<le> 2 ^ 21"
    and "\<And>r'. r' \<in> set (suboctants r) \<Longrightarrow> uniform data r' v"
  shows "uniform data r v"
proof -
  obtain xs xe ys ye zs ze where r: "r = (xs, xe, ys, ye, zs, ze)"
    by (cases r) auto
  with assms(1) have le: "xs \<le> xe" "ys \<le> ye" "zs \<le> ze" "xe \<le> n" "ye \<le> n" "ze \<le> n"
    by (simp_all add: region_within_def)
  define xm ym zm where "xm = midpoint xs xe" "ym = midpoint ys ye" "zm = midpoint zs ze"
  have sub: "uniform data (a, b, c, d, e, f) v"
    if "(a, b) \<in> {(xs, xm), (xm, xe)}" "(c, d) \<in> {(ys, ym), (ym, ye)}"
       "(e, f) \<in> {(zs, zm), (zm, ze)}" for a b c d e f
    using that by (intro assms(3)) (auto simp: r suboctants_def octants_def xm_ym_zm_def)
  show ?thesis
    unfolding r uniform_def
  proof (clarsimp)
    fix x y z
    assume x: "xs \<le> x" "x < xe" and y: "ys \<le> y" "y < ye" and z: "zs \<le> z" "z < ze"
    obtain a b where ab: "(a, b) \<in> {(xs, xm), (xm, xe)}" "a \<le> x" "x < b"
      using x by (cases "x < xm") auto
    obtain c d where cd: "(c, d) \<in> {(ys, ym), (ym, ye)}" "c \<le> y" "y < d"
      using y by (cases "y < ym") auto
    obtain e f where ef: "(e, f) \<in> {(zs, zm), (zm, ze)}" "e \<le> z" "z < f"
      using z by (cases "z < zm") auto
    from sub [OF ab(1) cd(1) ef(1)] ab(2,3) cd(2,3) ef(2,3)
    show "data ! x ! y ! z = v"
      by (simp add: uniform_def)
  qed
qed

lemma is_subvolume_homogeneous_iff:
  assumes "region_within n (xs, xe, ys, ye, zs, ze)" "n \<le> 2 ^ 21"
  shows "is_subvolume_homogeneous data xs xe ys ye zs ze \<longleftrightarrow>
           (xe - xs) * (ye - ys) * (ze - zs) < 2
           \<or> uniform data (xs, xe, ys, ye, zs, ze) (data ! xs ! ys ! zs)"
  by (auto simp: is_subvolume_homogeneous_def subvolume_size_exact [OF assms] uniform_def
      list_all_iff)

lemma uniform_imp_homogeneous:
  assumes "region_within n (xs, xe, ys, ye, zs, ze)" "n \<le> 2 ^ 21"
    and "uniform data (xs, xe, ys, ye, zs, ze) v"
  shows "is_subvolume_homogeneous data xs xe ys ye zs ze"
proof (cases "(xe - xs) * (ye - ys) * (ze - zs) < 2")
  case True
  then show ?thesis by (simp add: is_subvolume_homogeneous_iff [OF assms(1,2)])
next
  case False
  then have "xs < xe" "ys < ye" "zs < ze"
    by (auto intro: ccontr)
  with assms(3) have "data ! xs ! ys ! zs = v"
    by (simp add: uniform_def)
  with assms(3) show ?thesis
    by (simp add: is_subvolume_homogeneous_iff [OF assms(1,2)])
qed

lemma homogeneous_imp_uniform:
  assumes "region_within n (xs, xe, ys, ye, zs, ze)" "n \<le> 2 ^ 21"
    and "is_subvolume_homogeneous data xs xe ys ye zs ze"
    and "0 \<noteq> subvolume_size xs xe ys ye zs ze"
  shows "uniform data (xs, xe, ys, ye, zs, ze) (data ! xs ! ys ! zs)"
proof (cases "(xe - xs) * (ye - ys) * (ze - zs) < 2")
  case True
  moreover from assms(4) have "0 \<noteq> (xe - xs) * (ye - ys) * (ze - zs)"
    unfolding subvolume_size_exact [OF assms(1,2)] .
  ultimately have "(xe - xs) * (ye - ys) * (ze - zs) = 1"
    by linarith
  then have "xe - xs = 1 \<and> ye - ys = 1 \<and> ze - zs = 1"
    by simp
  then have "xe = Suc xs" "ye = Suc ys" "ze = Suc zs"
    by linarith+
  then show ?thesis
    by (auto simp: uniform_def)
next
  case False
  with assms(3) show ?thesis
    by (simp add: is_subvolume_homogeneous_iff [OF assms(1,2)])
qed

section \<open>The tree that encode writes\<close>

declare encode_recursive.simps [simp del] decode_recursive.simps [simp del]

lemma represents_list_length: "represents_list data ts rs \<Longrightarrow> length ts = length rs"
  by (induction ts arbitrary: rs) (auto split: list.splits)

lemma represents_list_leaves:
  assumes "represents_list data ts rs" "\<forall>t \<in> set ts. t = Leaf v" "r \<in> set rs"
  shows "uniform data r v"
  using assms by (induction ts arbitrary: rs) (auto split: list.splits)

lemma height_Branch_le:
  assumes "ts \<noteq> []" "\<forall>t \<in> set ts. height t + Suc d \<le> b"
  shows "height (Branch ts) + d \<le> b"
proof -
  from assms obtain t where "t \<in> set ts" by (cases ts) auto
  with assms(2) have "Suc d \<le> b" by fastforce
  have "Max (insert 0 (height ` set ts)) \<le> b - Suc d"
    using assms(2) by (subst Max_le_iff) fastforce+
  moreover have "height (Branch ts) = Suc (Max (insert 0 (height ` set ts)))"
    by simp
  ultimately show ?thesis
    using \<open>Suc d \<le> b\<close> by linarith
qed

lemma encode_tree:
  assumes n: "n \<le> 2 ^ 21"
  shows "region_within n (xs, xe, ys, ye, zs, ze) \<Longrightarrow>
         encode_recursive data encoding xs xe ys ye zs ze depth = Inr enc' \<Longrightarrow>
         \<exists>t. enc' = encoding @ bits_of t \<and> wf_octree t
            \<and> represents data t (xs, xe, ys, ye, zs, ze) \<and> canonical t
            \<and> height t + depth \<le> RECURSION_MAX_DEPTH"
    and "\<forall>r \<in> set rest. region_within n r \<Longrightarrow>
         encode_octants data encoding rest depth = Inr enc' \<Longrightarrow>
         \<exists>ts. enc' = encoding @ concat (map bits_of ts) \<and> represents_list data ts rest
            \<and> (\<forall>t \<in> set ts. wf_octree t \<and> canonical t
                  \<and> height t + depth \<le> RECURSION_MAX_DEPTH)"
proof (induction data encoding xs xe ys ye zs ze depth and data encoding rest depth
    arbitrary: enc' and enc' rule: encode_recursive_encode_octants.induct)
  case (1 data encoding xs xe ys ye zs ze depth)
  let ?r = "(xs, xe, ys, ye, zs, ze)"
  from "1.prems"(2) have depth: "\<not> RECURSION_MAX_DEPTH < depth"
    and size: "0 \<noteq> subvolume_size xs xe ys ye zs ze"
    by (auto simp: encode_recursive.simps split: if_splits)
  show ?case
  proof (cases "is_subvolume_homogeneous data xs xe ys ye zs ze")
    case True
    with "1.prems"(2) depth size have "enc' = encoding @ [False, data ! xs ! ys ! zs]"
      by (simp add: encode_recursive.simps)
    moreover have "uniform data ?r (data ! xs ! ys ! zs)"
      using "1.prems"(1) n True size by (rule homogeneous_imp_uniform)
    ultimately show ?thesis
      using depth by (intro exI [of _ "Leaf (data ! xs ! ys ! zs)"]) simp
  next
    case False
    with "1.prems"(2) depth size
    have enc: "encode_octants data (encoding @ [True]) (suboctants ?r) (depth + 1) = Inr enc'"
      by (simp add: encode_recursive.simps suboctants_def Let_def)
    have within: "\<forall>r \<in> set (suboctants ?r). region_within n r"
      using region_within_suboctants [OF "1.prems"(1) n] by blast
    have "\<exists>ts. enc' = (encoding @ [True]) @ concat (map bits_of ts)
        \<and> represents_list data ts (suboctants ?r)
        \<and> (\<forall>t \<in> set ts. wf_octree t \<and> canonical t
              \<and> height t + (depth + 1) \<le> RECURSION_MAX_DEPTH)"
    proof -
      have sub: "octants xs (midpoint xs xe) xe ys (midpoint ys ye) ye zs (midpoint zs ze) ze
          = suboctants ?r"
        by (simp add: suboctants_def)
      from within enc show ?thesis
        by (rule "1.IH" [OF depth size False refl refl refl, unfolded sub])
    qed
    then obtain ts where ts: "enc' = (encoding @ [True]) @ concat (map bits_of ts)"
      "represents_list data ts (suboctants ?r)"
      "\<forall>t \<in> set ts. wf_octree t \<and> canonical t
          \<and> height t + (depth + 1) \<le> RECURSION_MAX_DEPTH"
      by blast
    from ts(2) have len: "length ts = 8"
      by (simp add: represents_list_length)
    have not_uniform: "\<not> uniform data ?r v" for v
      using uniform_imp_homogeneous [OF "1.prems"(1) n] False by blast
    have mixed: "\<exists>t \<in> set ts. t \<noteq> Leaf v" for v
    proof (rule ccontr)
      assume "\<not> (\<exists>t \<in> set ts. t \<noteq> Leaf v)"
      then have "\<forall>t \<in> set ts. t = Leaf v" by blast
      with ts(2) have "uniform data r' v" if "r' \<in> set (suboctants ?r)" for r'
        using that by (rule represents_list_leaves)
      with "1.prems"(1) n have "uniform data ?r v"
        by (rule uniform_suboctants)
      with not_uniform show False by blast
    qed
    have "height (Branch ts) + depth \<le> RECURSION_MAX_DEPTH"
      using len ts(3) by (intro height_Branch_le) auto
    with ts len not_uniform mixed show ?thesis
      by (intro exI [of _ "Branch ts"]) simp
  qed
next
  case (2 data encoding depth)
  then show ?case by (intro exI [of _ "[]"]) simp
next
  case (3 data encoding xfirst xsecond yfirst ysecond zfirst zsecond rest depth)
  let ?r = "(xfirst, xsecond, yfirst, ysecond, zfirst, zsecond)"
  from "3.prems"(2) obtain b where
    b: "encode_recursive data encoding xfirst xsecond yfirst ysecond zfirst zsecond depth = Inr b"
    and rest: "encode_octants data b rest depth = Inr enc'"
    by (auto split: sum.splits)
  from "3.prems"(1) have r: "region_within n ?r" and rs: "\<forall>r \<in> set rest. region_within n r"
    by simp_all
  from "3.IH"(1) [OF r b] obtain t where t: "b = encoding @ bits_of t" "wf_octree t"
    "represents data t ?r" "canonical t" "height t + depth \<le> RECURSION_MAX_DEPTH"
    by blast
  from "3.IH"(2) [OF b rs rest] obtain ts where
    ts: "enc' = b @ concat (map bits_of ts)" "represents_list data ts rest"
    "\<forall>t \<in> set ts. wf_octree t \<and> canonical t \<and> height t + depth \<le> RECURSION_MAX_DEPTH"
    by blast
  from t ts show ?case
    by (intro exI [of _ "t # ts"]) simp
qed

section \<open>The decoder follows the tree\<close>

text \<open>
  \<open>paint\<close> is what decoding a tree does to the output volume: a leaf fills its region
  with its value, a branch paints its children into the octants one after the other.
\<close>

primrec paint :: "octree \<Rightarrow> bool vector3 \<Rightarrow> region \<Rightarrow> bool vector3"
  and paint_list :: "octree list \<Rightarrow> bool vector3 \<Rightarrow> region list \<Rightarrow> bool vector3" where
  "paint (Leaf v) out r =
     (case r of (xs, xe, ys, ye, zs, ze) \<Rightarrow> set_range out v xs xe ys ye zs ze)"
| "paint (Branch ts) out r = paint_list ts out (suboctants r)"
| "paint_list [] out rs = out"
| "paint_list (t # ts) out rs =
     (case rs of [] \<Rightarrow> out | r # rs' \<Rightarrow> paint_list ts (paint t out r) rs')"

lemma height_child:
  assumes "t \<in> set ts" "height (Branch ts) + d \<le> b"
  shows "height t + Suc d \<le> b"
proof -
  from assms(1) have "height t \<le> Max (insert 0 (height ` set ts))"
    by (intro Max_ge) auto
  with assms(2) show ?thesis by simp
qed

lemma decode_octants_trees:
  assumes "\<And>t pre post out xs xe ys ye zs ze. t \<in> set ts \<Longrightarrow>
      decode_recursive (pre @ bits_of t @ post) out (length pre) xs xe ys ye zs ze depth
        = Inr (length pre + length (bits_of t), paint t out (xs, xe, ys, ye, zs, ze))"
    and "length rs = length ts"
  shows "decode_octants (pre @ concat (map bits_of ts) @ post) out (length pre) rs depth
           = Inr (length pre + length (concat (map bits_of ts)), paint_list ts out rs)"
  using assms
proof (induction ts arbitrary: pre out rs)
  case Nil
  then show ?case by simp
next
  case (Cons t ts)
  from Cons.prems(2) obtain xs xe ys ye zs ze rs' where
    rs: "rs = (xs, xe, ys, ye, zs, ze) # rs'" and len: "length rs' = length ts"
    by (cases rs) auto
  let ?rest = "concat (map bits_of ts) @ post"
  have first: "decode_recursive (pre @ bits_of t @ ?rest) out (length pre) xs xe ys ye zs ze depth
      = Inr (length pre + length (bits_of t), paint t out (xs, xe, ys, ye, zs, ze))"
    by (rule Cons.prems(1)) simp
  have "decode_octants ((pre @ bits_of t) @ concat (map bits_of ts) @ post)
      (paint t out (xs, xe, ys, ye, zs, ze)) (length (pre @ bits_of t)) rs' depth
      = Inr (length (pre @ bits_of t) + length (concat (map bits_of ts)),
             paint_list ts (paint t out (xs, xe, ys, ye, zs, ze)) rs')"
    using Cons.prems(1) len by (intro Cons.IH) simp_all
  with first show ?case
    by (simp add: rs)
qed

lemma decode_tree:
  assumes "wf_octree t" "height t + depth \<le> RECURSION_MAX_DEPTH"
  shows "decode_recursive (pre @ bits_of t @ post) out (length pre) xs xe ys ye zs ze depth
           = Inr (length pre + length (bits_of t), paint t out (xs, xe, ys, ye, zs, ze))"
  using assms
proof (induction t arbitrary: pre post out xs xe ys ye zs ze depth)
  case (Leaf v)
  then show ?case
    by (simp add: decode_recursive.simps read_bit_def nth_append)
next
  case (Branch ts)
  from Branch.prems have len: "length ts = 8" and wf: "\<And>t. t \<in> set ts \<Longrightarrow> wf_octree t"
    by simp_all
  have depth: "\<not> RECURSION_MAX_DEPTH < depth"
    using Branch.prems(2) by simp
  have "decode_octants ((pre @ [True]) @ concat (map bits_of ts) @ post) out
      (length (pre @ [True])) (suboctants (xs, xe, ys, ye, zs, ze)) (depth + 1)
      = Inr (length (pre @ [True]) + length (concat (map bits_of ts)),
             paint_list ts out (suboctants (xs, xe, ys, ye, zs, ze)))"
  proof (rule decode_octants_trees)
    show "length (suboctants (xs, xe, ys, ye, zs, ze)) = length ts"
      using len by simp
    fix t pre post out xs xe ys ye zs ze
    assume t: "t \<in> set ts"
    then have "height t + (depth + 1) \<le> RECURSION_MAX_DEPTH"
      using height_child [OF t Branch.prems(2)] by simp
    with t show "decode_recursive (pre @ bits_of t @ post) out (length pre) xs xe ys ye zs ze
        (depth + 1)
        = Inr (length pre + length (bits_of t), paint t out (xs, xe, ys, ye, zs, ze))"
      by (intro Branch.IH wf)
  qed
  with depth show ?case
    by (simp add: decode_recursive.simps read_bit_def nth_append suboctants_def)
qed

section \<open>Filling a region\<close>

text \<open>
  \<open>overwritten X Y Z src S d d'\<close>: the volume \<open>d'\<close> is the cuboid \<open>d\<close> with the cells
  selected by \<open>S\<close> replaced by the values \<open>src\<close> gives them.
\<close>

definition in_region :: "region \<Rightarrow> nat \<Rightarrow> nat \<Rightarrow> nat \<Rightarrow> bool" where
  "in_region r x y z = (case r of (xs, xe, ys, ye, zs, ze) \<Rightarrow>
     xs \<le> x \<and> x < xe \<and> ys \<le> y \<and> y < ye \<and> zs \<le> z \<and> z < ze)"

definition overwritten ::
  "nat \<Rightarrow> nat \<Rightarrow> nat \<Rightarrow> (nat \<Rightarrow> nat \<Rightarrow> nat \<Rightarrow> bool) \<Rightarrow> (nat \<Rightarrow> nat \<Rightarrow> nat \<Rightarrow> bool)
    \<Rightarrow> bool vector3 \<Rightarrow> bool vector3 \<Rightarrow> bool" where
  "overwritten X Y Z src S d d' \<longleftrightarrow>
     cuboid d' X Y Z
     \<and> (\<forall>x < X. \<forall>y < Y. \<forall>z < Z. d' ! x ! y ! z = (if S x y z then src x y z else d ! x ! y ! z))"

lemma overwritten_cuboid: "overwritten X Y Z src S d d' \<Longrightarrow> cuboid d' X Y Z"
  by (simp add: overwritten_def)

lemma overwritten_cong:
  assumes "overwritten X Y Z src S d d'"
    and "\<And>x y z. x < X \<Longrightarrow> y < Y \<Longrightarrow> z < Z \<Longrightarrow> S x y z = S' x y z"
  shows "overwritten X Y Z src S' d d'"
  using assms by (simp add: overwritten_def)

lemma overwritten_fold:
  assumes "cuboid d X Y Z"
    and "\<And>i d0. i \<in> set is \<Longrightarrow> cuboid d0 X Y Z \<Longrightarrow> overwritten X Y Z src (S i) d0 (f i d0)"
  shows "overwritten X Y Z src (\<lambda>x y z. \<exists>i \<in> set is. S i x y z) d (fold f is d)"
  using assms
proof (induction "is" arbitrary: d)
  case Nil
  then show ?case by (simp add: overwritten_def)
next
  case (Cons i "is")
  have first: "overwritten X Y Z src (S i) d (f i d)"
    using Cons.prems by simp
  then have "cuboid (f i d) X Y Z"
    by (rule overwritten_cuboid)
  then have "overwritten X Y Z src (\<lambda>x y z. \<exists>i \<in> set is. S i x y z) (f i d) (fold f is (f i d))"
    using Cons.prems(2) by (intro Cons.IH) simp_all
  with first show ?case
    by (auto simp: overwritten_def)
qed

lemma overwritten_cell:
  assumes d: "cuboid d X Y Z" and x: "x < X" and y: "y < Y" and z: "z < Z"
  shows "overwritten X Y Z (\<lambda>_ _ _. v) (\<lambda>a b c. a = x \<and> b = y \<and> c = z) d
           (d[x := (d ! x)[y := (d ! x ! y)[z := v]]])"
proof -
  let ?d' = "d[x := (d ! x)[y := (d ! x ! y)[z := v]]]"
  note len = cuboidD [OF d]
  have "cuboid ?d' X Y Z"
  proof (rule cuboidI)
    show "length ?d' = X" by (simp add: len)
    show "length (?d' ! i) = Y" if "i < X" for i
      using that by (cases "i = x") (simp_all add: len)
    show "length (?d' ! i ! j) = Z" if "i < X" "j < Y" for i j
      using that by (cases "i = x"; cases "j = y") (simp_all add: len)
  qed
  moreover have "?d' ! a ! b ! c = (if a = x \<and> b = y \<and> c = z then v else d ! a ! b ! c)"
    if "a < X" "b < Y" "c < Z" for a b c
    using that by (cases "a = x"; cases "b = y"; cases "c = z") (simp_all add: len)
  ultimately show ?thesis
    by (simp add: overwritten_def)
qed

lemma set_range_overwritten:
  assumes d: "cuboid d X Y Z" and le: "xe \<le> X" "ye \<le> Y" "ze \<le> Z"
  shows "overwritten X Y Z (\<lambda>_ _ _. v) (in_region (xs, xe, ys, ye, zs, ze)) d
           (set_range d v xs xe ys ye zs ze)"
proof -
  let ?cell = "\<lambda>x y z (a::nat) (b::nat) (c::nat). a = x \<and> b = y \<and> c = z"
  let ?fz = "\<lambda>x y z data. data[x := (data ! x)[y := (data ! x ! y)[z := v]]]"
  let ?fy = "\<lambda>x y data. fold (?fz x y) [zs..<ze] data"
  let ?fx = "\<lambda>x data. fold (?fy x) [ys..<ye] data"
  have row: "overwritten X Y Z (\<lambda>_ _ _. v) (\<lambda>a b c. \<exists>z \<in> set [zs..<ze]. ?cell x y z a b c)
      d0 (?fy x y d0)"
    if "cuboid d0 X Y Z" "x < X" "y < Y" for d0 x y
    using that le by (intro overwritten_fold overwritten_cell) simp_all
  have plane: "overwritten X Y Z (\<lambda>_ _ _. v)
      (\<lambda>a b c. \<exists>y \<in> set [ys..<ye]. \<exists>z \<in> set [zs..<ze]. ?cell x y z a b c) d0 (?fx x d0)"
    if "cuboid d0 X Y Z" "x < X" for d0 x
    using that le by (intro overwritten_fold row) simp_all
  have "overwritten X Y Z (\<lambda>_ _ _. v)
      (\<lambda>a b c. \<exists>x \<in> set [xs..<xe]. \<exists>y \<in> set [ys..<ye]. \<exists>z \<in> set [zs..<ze].
          ?cell x y z a b c) d (fold ?fx [xs..<xe] d)"
    using d le by (intro overwritten_fold plane) simp_all
  then show ?thesis
    unfolding set_range_def
    by (rule overwritten_cong) (auto simp: in_region_def)
qed

lemma overwritten_src_cong:
  assumes "overwritten X Y Z src S d d'"
    and "\<And>x y z. S x y z \<Longrightarrow> src x y z = src' x y z"
  shows "overwritten X Y Z src' S d d'"
  using assms by (simp add: overwritten_def)

lemma uniform_iff: 
  "uniform data r v \<longleftrightarrow> (\<forall>x y z. in_region r x y z \<longrightarrow> data ! x ! y ! z = v)"
  by (cases r) (auto simp: uniform_def in_region_def)

lemma set_octants_iff:
  "(a, b, c, d, e, f) \<in> set (octants xs xm xe ys ym ye zs zm ze) \<longleftrightarrow>
     (a, b) \<in> {(xs, xm), (xm, xe)} \<and> (c, d) \<in> {(ys, ym), (ym, ye)}
     \<and> (e, f) \<in> {(zs, zm), (zm, ze)}"
  by (auto simp: octants_def)

lemma in_region_suboctants:
  assumes "region_within n r" "n \<le> 2 ^ 21"
  shows "(\<exists>r' \<in> set (suboctants r). in_region r' x y z) \<longleftrightarrow> in_region r x y z"
proof -
  obtain xs xe ys ye zs ze where r: "r = (xs, xe, ys, ye, zs, ze)"
    by (cases r) auto
  with assms(1) have le: "xs \<le> xe" "ys \<le> ye" "zs \<le> ze" "xe \<le> n" "ye \<le> n" "ze \<le> n"
    by (simp_all add: region_within_def)
  define xm ym zm where "xm = midpoint xs xe" "ym = midpoint ys ye" "zm = midpoint zs ze"
  have m: "xs \<le> xm" "xm \<le> xe" "ys \<le> ym" "ym \<le> ye" "zs \<le> zm" "zm \<le> ze"
    unfolding xm_ym_zm_def
    using midpoint_between [OF le(1) le(4) assms(2)] midpoint_between [OF le(2) le(5) assms(2)]
      midpoint_between [OF le(3) le(6) assms(2)] by simp_all
  have sub: "suboctants r = octants xs xm xe ys ym ye zs zm ze"
    by (simp add: r suboctants_def xm_ym_zm_def)
  show ?thesis
  proof
    assume "\<exists>r' \<in> set (suboctants r). in_region r' x y z"
    then obtain r' where r': "r' \<in> set (suboctants r)" "in_region r' x y z"
      by blast
    obtain a b c d e f where abc: "r' = (a, b, c, d, e, f)"
      by (cases r') auto
    from r'(1) have "(a, b) \<in> {(xs, xm), (xm, xe)}" "(c, d) \<in> {(ys, ym), (ym, ye)}"
      "(e, f) \<in> {(zs, zm), (zm, ze)}"
      unfolding sub abc set_octants_iff by blast+
    with m have "xs \<le> a \<and> b \<le> xe" "ys \<le> c \<and> d \<le> ye" "zs \<le> e \<and> f \<le> ze"
      by auto
    with r'(2) show "in_region r x y z"
      by (simp add: r abc in_region_def)
  next
    assume "in_region r x y z"
    then have x: "xs \<le> x" "x < xe" and y: "ys \<le> y" "y < ye" and z: "zs \<le> z" "z < ze"
      by (simp_all add: r in_region_def)
    obtain a b where ab: "(a, b) \<in> {(xs, xm), (xm, xe)}" "a \<le> x" "x < b"
      using x by (cases "x < xm") auto
    obtain c d where cd: "(c, d) \<in> {(ys, ym), (ym, ye)}" "c \<le> y" "y < d"
      using y by (cases "y < ym") auto
    obtain e f where ef: "(e, f) \<in> {(zs, zm), (zm, ze)}" "e \<le> z" "z < f"
      using z by (cases "z < zm") auto
    from ab(1) cd(1) ef(1) have "(a, b, c, d, e, f) \<in> set (suboctants r)"
      unfolding sub set_octants_iff by blast
    moreover from ab cd ef have "in_region (a, b, c, d, e, f) x y z"
      by (simp add: in_region_def)
    ultimately show "\<exists>r' \<in> set (suboctants r). in_region r' x y z"
      by blast
  qed
qed

lemma paint_list_overwritten:
  assumes "\<And>t out r. t \<in> set ts \<Longrightarrow> represents data t r \<Longrightarrow> cuboid out n n n \<Longrightarrow>
      region_within n r \<Longrightarrow> overwritten n n n src (in_region r) out (paint t out r)"
    and "represents_list data ts rs" "\<forall>r \<in> set rs. region_within n r" "cuboid out n n n"
  shows "overwritten n n n src (\<lambda>x y z. \<exists>r \<in> set rs. in_region r x y z) out
           (paint_list ts out rs)"
  using assms
proof (induction ts arbitrary: rs out)
  case Nil
  then show ?case by (simp add: overwritten_def)
next
  case (Cons t ts)
  from Cons.prems(2) obtain r rs' where rs: "rs = r # rs'"
    and t: "represents data t r" and ts: "represents_list data ts rs'"
    by (auto split: list.splits)
  have first: "overwritten n n n src (in_region r) out (paint t out r)"
    using t Cons.prems(3,4) by (intro Cons.prems(1)) (simp_all add: rs)
  then have "cuboid (paint t out r) n n n"
    by (rule overwritten_cuboid)
  then have "overwritten n n n src (\<lambda>x y z. \<exists>r \<in> set rs'. in_region r x y z) (paint t out r)
      (paint_list ts (paint t out r) rs')"
    using Cons.prems(1,3) ts by (intro Cons.IH) (simp_all add: rs)
  with first show ?case
    by (auto simp: overwritten_def rs)
qed

lemma paint_represents:
  assumes "represents data t r" "cuboid out n n n" "region_within n r" "n \<le> 2 ^ 21"
  shows "overwritten n n n (\<lambda>x y z. data ! x ! y ! z) (in_region r) out (paint t out r)"
  using assms
proof (induction t arbitrary: out r)
  case (Leaf v)
  obtain xs xe ys ye zs ze where r: "r = (xs, xe, ys, ye, zs, ze)"
    by (cases r) auto
  with Leaf.prems(3) have "xe \<le> n" "ye \<le> n" "ze \<le> n"
    by (simp_all add: region_within_def)
  with Leaf.prems(2)
  have "overwritten n n n (\<lambda>_ _ _. v) (in_region r) out (set_range out v xs xe ys ye zs ze)"
    unfolding r by (rule set_range_overwritten)
  moreover have "v = data ! x ! y ! z" if "in_region r x y z" for x y z
    using Leaf.prems(1) that by (simp add: uniform_iff)
  ultimately show ?case
    by (simp add: r overwritten_src_cong)
next
  case (Branch ts)
  from Branch.prems(1) have ts: "represents_list data ts (suboctants r)"
    by simp
  have "overwritten n n n (\<lambda>x y z. data ! x ! y ! z)
      (\<lambda>x y z. \<exists>r' \<in> set (suboctants r). in_region r' x y z) out
      (paint_list ts out (suboctants r))"
  proof (rule paint_list_overwritten [OF _ ts _ Branch.prems(2)])
    show "\<forall>r' \<in> set (suboctants r). region_within n r'"
      using region_within_suboctants [OF Branch.prems(3,4)] by blast
    show "overwritten n n n (\<lambda>x y z. data ! x ! y ! z) (in_region r') out' (paint t out' r')"
      if "t \<in> set ts" "represents data t r'" "cuboid out' n n n" "region_within n r'"
      for t out' r'
      using that Branch.prems(4) by (intro Branch.IH)
  qed
  then show ?case
    by (simp add: in_region_suboctants [OF Branch.prems(3,4)])
qed

section \<open>Decoding what encode wrote\<close>

lemma region_within_full: "region_within n (0, n, 0, n, 0, n)"
  by (simp add: region_within_def)

lemma decode_recursive_encode:
  assumes data: "cuboid data n n n" and n: "n \<le> 2 ^ 21"
    and enc: "encode data = Inr bits" and out: "cuboid out n n n"
  shows "decode_recursive bits out 0 0 n 0 n 0 n 0 = Inr (length bits, data)"
proof -
  let ?r = "(0, n, 0, n, 0, n)"
  from data have len: "length data = n" by (rule cuboidD)
  from enc have "encode_recursive data [] 0 n 0 n 0 n 0 = Inr bits"
    by (simp add: encode_def len)
  with encode_tree(1) [OF n region_within_full] obtain t where
    t: "bits = bits_of t" "wf_octree t" "represents data t ?r"
    "height t + 0 \<le> RECURSION_MAX_DEPTH"
    by fastforce
  from decode_tree [OF t(2,4), of "[]" "[]" out 0 n 0 n 0 n]
  have dec: "decode_recursive bits out 0 0 n 0 n 0 n 0 = Inr (length bits, paint t out ?r)"
    by (simp add: t(1))
  from t(3) out region_within_full n
  have ow: "overwritten n n n (\<lambda>x y z. data ! x ! y ! z) (in_region ?r) out (paint t out ?r)"
    by (rule paint_represents)
  have "paint t out ?r = data"
  proof (rule cuboid_eqI)
    show "cuboid (paint t out ?r) n n n"
      using ow by (rule overwritten_cuboid)
    show "cuboid data n n n" by fact
    show "paint t out ?r ! i ! j ! k = data ! i ! j ! k" if "i < n" "j < n" "k < n" for i j k
      using ow that by (simp add: overwritten_def in_region_def)
  qed
  with dec show ?thesis by simp
qed

lemma encode_octants_succeeds:
  assumes "\<And>xs xe ys ye zs ze enc. (xs, xe, ys, ye, zs, ze) \<in> set rs \<Longrightarrow>
      \<exists>enc'. encode_recursive data enc xs xe ys ye zs ze depth = Inr enc'"
  shows "\<exists>enc'. encode_octants data enc rs depth = Inr enc'"
  using assms
proof (induction rs arbitrary: enc)
  case Nil
  then show ?case by simp
next
  case (Cons r rs)
  obtain xs xe ys ye zs ze where r: "r = (xs, xe, ys, ye, zs, ze)"
    by (cases r) auto
  from Cons.prems [of xs xe ys ye zs ze enc] obtain b where
    "encode_recursive data enc xs xe ys ye zs ze depth = Inr b"
    by (auto simp: r)
  moreover have "\<exists>enc'. encode_octants data b rs depth = Inr enc'"
    using Cons.prems by (intro Cons.IH) simp
  ultimately show ?case
    by (simp add: r)
qed

lemma encode_recursive_succeeds:
  assumes n: "n \<le> 2 ^ 21"
    and "xs + 2 ^ j \<le> n" "ys + 2 ^ j \<le> n" "zs + 2 ^ j \<le> n"
    and "j + depth \<le> RECURSION_MAX_DEPTH"
  shows "\<exists>enc'. encode_recursive data enc xs (xs + 2 ^ j) ys (ys + 2 ^ j) zs (zs + 2 ^ j) depth
           = Inr enc'"
  using assms(2-)
proof (induction j arbitrary: enc xs ys zs depth)
  case 0
  let ?r = "(xs, xs + 2 ^ 0, ys, ys + 2 ^ 0, zs, zs + 2 ^ 0)"
  from 0 have within: "region_within n ?r"
    by (simp add: region_within_def)
  have "subvolume_size xs (xs + 2 ^ 0) ys (ys + 2 ^ 0) zs (zs + 2 ^ 0) = 1"
    unfolding subvolume_size_exact [OF within n] by simp
  moreover have "is_subvolume_homogeneous data xs (xs + 2 ^ 0) ys (ys + 2 ^ 0) zs (zs + 2 ^ 0)"
    unfolding is_subvolume_homogeneous_iff [OF within n] by simp
  moreover have "\<not> RECURSION_MAX_DEPTH < depth"
    using "0.prems"(4) by simp
  ultimately show ?case
    by (subst encode_recursive.simps) simp
next
  case (Suc j)
  let ?xe = "xs + 2 ^ Suc j" and ?ye = "ys + 2 ^ Suc j" and ?ze = "zs + 2 ^ Suc j"
  from Suc.prems have within: "region_within n (xs, ?xe, ys, ?ye, zs, ?ze)"
    by (simp add: region_within_def)
  have size: "0 \<noteq> subvolume_size xs ?xe ys ?ye zs ?ze"
    unfolding subvolume_size_exact [OF within n] by simp
  have depth: "\<not> RECURSION_MAX_DEPTH < depth"
    using Suc.prems(4) by simp
  have mid: "midpoint xs ?xe = xs + 2 ^ j" "midpoint ys ?ye = ys + 2 ^ j"
    "midpoint zs ?ze = zs + 2 ^ j"
    using Suc.prems(1-3) n by (simp_all add: midpoint_exact [of _ _ n])
  show ?case
  proof (cases "is_subvolume_homogeneous data xs ?xe ys ?ye zs ?ze")
    case True
    with size depth show ?thesis
      by (simp add: encode_recursive.simps)
  next
    case False
    have "\<exists>enc'. encode_octants data (enc @ [True])
        (octants xs (xs + 2 ^ j) ?xe ys (ys + 2 ^ j) ?ye zs (zs + 2 ^ j) ?ze) (depth + 1)
        = Inr enc'"
    proof (rule encode_octants_succeeds)
      fix a b c d e f enc0
      assume "(a, b, c, d, e, f)
        \<in> set (octants xs (xs + 2 ^ j) ?xe ys (ys + 2 ^ j) ?ye zs (zs + 2 ^ j) ?ze)"
      then have ab: "(a, b) \<in> {(xs, xs + 2 ^ j), (xs + 2 ^ j, ?xe)}"
        and cd: "(c, d) \<in> {(ys, ys + 2 ^ j), (ys + 2 ^ j, ?ye)}"
        and ef: "(e, f) \<in> {(zs, zs + 2 ^ j), (zs + 2 ^ j, ?ze)}"
        unfolding set_octants_iff by blast+
      from ab Suc.prems(1) have a: "b = a + 2 ^ j" "a + 2 ^ j \<le> n" by auto
      from cd Suc.prems(2) have c: "d = c + 2 ^ j" "c + 2 ^ j \<le> n" by auto
      from ef Suc.prems(3) have e: "f = e + 2 ^ j" "e + 2 ^ j \<le> n" by auto
      have "\<exists>enc'. encode_recursive data enc0 a (a + 2 ^ j) c (c + 2 ^ j) e (e + 2 ^ j)
          (depth + 1) = Inr enc'"
        using a(2) c(2) e(2) Suc.prems(4) by (intro Suc.IH) simp_all
      then show "\<exists>enc'. encode_recursive data enc0 a b c d e f (depth + 1) = Inr enc'"
        by (simp add: a(1) c(1) e(1))
    qed
    with False size depth mid show ?thesis
      by (simp add: encode_recursive.simps)
  qed
qed

lemma encode_succeeds:
  assumes "length data = 2 ^ k" "k \<le> RECURSION_MAX_DEPTH"
  shows "\<exists>bits. encode data = Inr bits"
proof -
  have "(2::nat) ^ k \<le> 2 ^ 21"
    using assms(2) by (intro power_increasing) (simp_all add: RECURSION_MAX_DEPTH_def)
  then have "\<exists>enc'. encode_recursive data [] 0 (0 + 2 ^ k) 0 (0 + 2 ^ k) 0 (0 + 2 ^ k) 0 = Inr enc'"
    using assms(2) by (intro encode_recursive_succeeds [of "2 ^ k"]) simp_all
  then show ?thesis
    by (simp add: encode_def assms(1) Let_def)
qed

lemma unat_of_nat_size_t: "n < 2 ^ 64 \<Longrightarrow> unat (of_nat n :: size_t) = n"
  by (simp add: unat_of_nat)

lemma max_res_pow2_roof_smallest:
  assumes "1 \<le> max (max X Y) Z" "max (max X Y) Z \<le> 2 ^ 63"
  shows "\<exists>k. max_res_pow2_roof X Y Z = 2 ^ k \<and> max (max X Y) Z \<le> 2 ^ k
           \<and> (\<forall>j. max (max X Y) Z \<le> 2 ^ j \<longrightarrow> k \<le> j)"
proof -
  let ?M = "max (max X Y) Z"
  have "?M < 2 ^ 64"
    using assms(2) by (rule le_less_trans) simp
  then have u: "unat (of_nat ?M :: size_t) = ?M"
    by (rule unat_of_nat_size_t)
  with assms pow2_roof_smallest [of "of_nat ?M"] show ?thesis
    by (simp add: max_res_pow2_roof_def Let_def)
qed

lemma max_res_pow2_roof_bounded:
  assumes "1 \<le> X" "X \<le> 2 ^ b" "Y \<le> 2 ^ b" "Z \<le> 2 ^ b" "b \<le> 63"
  obtains k where "max_res_pow2_roof X Y Z = 2 ^ k" "k \<le> b"
    "X \<le> 2 ^ k" "Y \<le> 2 ^ k" "Z \<le> 2 ^ k"
proof -
  let ?M = "max (max X Y) Z"
  have M: "1 \<le> ?M" "?M \<le> 2 ^ b"
    using assms by simp_all
  have "(2::nat) ^ b \<le> 2 ^ 63"
    using assms(5) by (intro power_increasing) simp_all
  with M have "?M \<le> 2 ^ 63" by linarith
  with M(1) obtain k where k: "max_res_pow2_roof X Y Z = 2 ^ k" "?M \<le> 2 ^ k"
    "\<forall>j. ?M \<le> 2 ^ j \<longrightarrow> k \<le> j"
    using max_res_pow2_roof_smallest [of X Y Z] by blast
  from k(3) M(2) have "k \<le> b" by blast
  moreover from k(2) have "X \<le> 2 ^ k" "Y \<le> 2 ^ k" "Z \<le> 2 ^ k" by simp_all
  ultimately show ?thesis using k(1) by (rule that [rotated])
qed

lemma size_volume_cuboid:
  assumes "cuboid V X Y Z" "1 \<le> X" "X \<le> n" "Y \<le> n" "Z \<le> n" "n \<le> 2 ^ 21"
  shows "size_volume V = X * Y * Z"
proof -
  have len: "length V = X" "length (V ! 0) = Y"
    using assms(1,2) by (simp_all add: cuboidD)
  have "X * Y * 1 \<le> n * n * n"
    using assms by (intro mult_le_mono) simp_all
  also have "\<dots> < 2 ^ 64"
    using assms(6) by (intro extent_cube_bound [of _ n]) simp_all
  finally have xy: "X * Y < 2 ^ 64" by simp
  have xyz: "X * Y * Z < 2 ^ 64"
    using assms by (intro extent_cube_bound [of _ n]) simp_all
  show ?thesis
  proof (cases "Y = 0")
    case True
    with len assms(2) show ?thesis
      by (simp add: size_volume_def Let_def)
  next
    case False
    with assms(1,2) have "length (V ! 0 ! 0) = Z"
      by (simp add: cuboidD)
    with len xy xyz assms(2) False show ?thesis
      by (simp add: size_volume_def Let_def)
  qed
qed

lemma deep_copy_cuboid:
  assumes "cuboid V X Y Z" "0 \<noteq> size_volume V"
  shows "deep_copy V = V"
proof -
  from assms(2) have "V \<noteq> []"
    by (auto simp: size_volume_def)
  moreover have "length V = X"
    using assms(1) by (rule cuboidD)
  ultimately have X: "0 < X" by auto
  with assms(1) have len: "length V = X" "length (V ! 0) = Y"
    by (simp_all add: cuboidD)
  from assms(2) X len have "0 < Y"
    by (auto simp: size_volume_def Let_def intro: ccontr)
  with assms(1) X have len2: "length (V ! 0 ! 0) = Z"
    by (simp add: cuboidD)
  let ?copy = "map (\<lambda>x. map (\<lambda>y. map (\<lambda>z. V ! x ! y ! z) [0..<Z]) [0..<Y]) [0..<X]"
  have "?copy = V"
  proof (rule cuboid_eqI)
    show "cuboid ?copy X Y Z"
      by (auto simp: cuboid_def)
    show "cuboid V X Y Z" by fact
    show "?copy ! i ! j ! k = V ! i ! j ! k" if "i < X" "j < Y" "k < Z" for i j k
      using that by simp
  qed
  with assms(2) len len2 show ?thesis
    by (simp add: deep_copy_def Let_def)
qed

lemma cut_volume_cut_volume:
  assumes "cuboid V X Y Z" "X \<le> m" "Y \<le> m" "Z \<le> m"
  shows "cut_volume (cut_volume V m m m) X Y Z = V"
proof (rule cuboid_eqI)
  show "cuboid (cut_volume (cut_volume V m m m) X Y Z) X Y Z"
    by (rule cuboid_cut_volume)
  show "cuboid V X Y Z" by fact
  fix i j k assume ijk: "i < X" "j < Y" "k < Z"
  with assms have m: "i < m" "j < m" "k < m" by simp_all
  note P = cuboidD [OF cuboid_cut_volume [of V m m m]]
  from ijk m show "cut_volume (cut_volume V m m m) X Y Z ! i ! j ! k = V ! i ! j ! k"
    by (simp add: nth_cut_volume P cuboidD [OF assms(1)])
qed

lemma pad_to_cube_cuboid:
  assumes "cuboid V X Y Z" "1 \<le> X" "1 \<le> Y" "1 \<le> Z" "X \<le> n" "Y \<le> n" "Z \<le> n"
    "n \<le> 2 ^ 21"
  shows "pad_to_cube V = Inr (cut_volume V (max_res_pow2_roof X Y Z) (max_res_pow2_roof X Y Z)
           (max_res_pow2_roof X Y Z))"
proof -
  have "size_volume V = X * Y * Z"
    using assms(1,2,5-8) by (rule size_volume_cuboid)
  with assms(2-4) have nonempty: "0 \<noteq> size_volume V" by simp
  with assms(1) have "deep_copy V = V" by (rule deep_copy_cuboid)
  moreover have "length V = X" "length (V ! 0) = Y" "length (V ! 0 ! 0) = Z"
    using assms(1-3) by (simp_all add: cuboidD)
  ultimately show ?thesis
    using nonempty
    by (simp add: pad_to_cube_def pad_to_cube_inplace_def cut_volume_def Let_def)
qed

lemma max_res_pow2_roof_power:
  assumes "k < 64"
  shows "max_res_pow2_roof (2 ^ k) (2 ^ k) (2 ^ k) = 2 ^ k"
  using assms by (simp add: max_res_pow2_roof_def pow2_roof_power unat_2p)

lemma pad_encode_decode:
  assumes V: "cuboid V X Y Z" and pos: "1 \<le> X" "1 \<le> Y" "1 \<le> Z"
    and le: "X \<le> 2 ^ RECURSION_MAX_DEPTH" "Y \<le> 2 ^ RECURSION_MAX_DEPTH"
      "Z \<le> 2 ^ RECURSION_MAX_DEPTH"
  obtains P bits where "pad_to_cube V = Inr P" "encode P = Inr bits"
    "cuboid P (max_res_pow2_roof X Y Z) (max_res_pow2_roof X Y Z) (max_res_pow2_roof X Y Z)"
    "\<And>ndebug. decode ndebug bits (X, Y, Z) = Inr V"
proof -
  let ?m = "max_res_pow2_roof X Y Z"
  let ?P = "cut_volume V ?m ?m ?m"
  from pos(1) le obtain k where k: "?m = 2 ^ k" "k \<le> RECURSION_MAX_DEPTH"
    "X \<le> 2 ^ k" "Y \<le> 2 ^ k" "Z \<le> 2 ^ k"
    by (rule max_res_pow2_roof_bounded) (simp add: RECURSION_MAX_DEPTH_def)
  have "(2::nat) ^ k \<le> 2 ^ 21"
    using k(2) by (intro power_increasing) (simp_all add: RECURSION_MAX_DEPTH_def)
  then have m: "?m \<le> 2 ^ 21" by (simp add: k(1))
  have pad: "pad_to_cube V = Inr ?P"
    using V pos k(3-5) m unfolding k(1) [symmetric] by (rule pad_to_cube_cuboid)
  have P: "cuboid ?P ?m ?m ?m"
    by (rule cuboid_cut_volume)
  then have "length ?P = 2 ^ k"
    by (simp add: cuboidD k(1))
  then obtain bits where bits: "encode ?P = Inr bits"
    using k(2) encode_succeeds by blast
  have "decode_recursive bits (cut_volume [] ?m ?m ?m) 0 0 ?m 0 ?m 0 ?m 0
      = Inr (length bits, ?P)"
    using P m bits cuboid_cut_volume by (rule decode_recursive_encode)
  moreover have "cut_volume ?P X Y Z = V"
    using V k(3-5) unfolding k(1) [symmetric] by (rule cut_volume_cut_volume)
  ultimately have "decode ndebug bits (X, Y, Z) = Inr V" for ndebug
    by (simp add: decode_def Let_def)
  with pad bits P show ?thesis by (rule that)
qed

section \<open>The encoding is canonical\<close>

lemma upt_0_2: "[0..<2] = [0, 1]"
  by (simp add: upt_rec)

lemma encode_recursive_corner:
  "encode_recursive [[[True, False], [False, False]], [[False, False], [False, False]]] []
      0 2 0 2 0 2 0
     = Inr [True, False, True, False, False, False, False, False, False, False, False,
            False, False, False, False, False, False]"
  by (simp add: encode_recursive.simps RECURSION_MAX_DEPTH_def subvolume_size_def
      sub_size_t_def wrap_size_t_def midpoint_def octants_def is_subvolume_homogeneous_def upt_0_2)

lemma encode_corner:
  "encode [[[True, False], [False, False]], [[False, False], [False, False]]]
     = Inr [True, False, True, False, False, False, False, False, False, False, False,
            False, False, False, False, False, False]"
  using encode_recursive_corner by (simp add: encode_def numeral_2_eq_2)

text \<open>
  Claim C10. Every bit sequence that \<open>encode\<close> produces for a cube (of side at most
  \<open>2 ^ 21\<close>, so that its number of cells fits \<^verbatim>\<open>size_t\<close>) is the bit sequence of an octree
  that represents the cube: each branch token stands for a subregion that holds both
  values, and so at least two cells with different values. Consequently the tree is
  canonical: no branch has eight leaves of the same value as children.
\<close>

theorem encode_canonical:
  assumes "cuboid data n n n" "n \<le> 2 ^ 21" "encode data = Inr bits"
  shows "\<exists>t. bits = bits_of t \<and> wf_octree t \<and> represents data t (0, n, 0, n, 0, n)
           \<and> canonical t"
proof -
  from assms(1) have "length data = n" by (rule cuboidD)
  with assms(3) have "encode_recursive data [] 0 n 0 n 0 n 0 = Inr bits"
    by (simp add: encode_def)
  with encode_tree(1) [OF assms(2) region_within_full] show ?thesis
    by fastforce
qed

theorem encode_canonical_witness:
  "cuboid [[[True, False], [False, False]], [[False, False], [False, False]]] 2 2 2
   \<and> (2::nat) \<le> 2 ^ 21
   \<and> encode [[[True, False], [False, False]], [[False, False], [False, False]]]
       = Inr [True, False, True, False, False, False, False, False, False, False, False,
              False, False, False, False, False, False]
   \<and> (\<exists>t. [True, False, True, False, False, False, False, False, False, False, False,
             False, False, False, False, False, False] = bits_of t \<and> wf_octree t
          \<and> represents [[[True, False], [False, False]], [[False, False], [False, False]]] t
               (0, 2, 0, 2, 0, 2)
          \<and> canonical t)"
proof -
  have c: "cuboid [[[True, False], [False, False]], [[False, False], [False, False]]] 2 2 2"
    by (simp add: cuboid_def)
  have n: "(2::nat) \<le> 2 ^ 21" by simp
  from c n encode_corner encode_canonical [OF c n encode_corner] show ?thesis
    by blast
qed

section \<open>Homogeneous volumes\<close>

lemma encode_uniform:
  assumes P: "cuboid P m m m" and m: "1 \<le> m" "m \<le> 2 ^ 21"
    and u: "uniform P (0, m, 0, m, 0, m) v"
  shows "encode P = Inr [False, v]"
proof -
  note within = region_within_full [of m]
  have "0 \<noteq> subvolume_size 0 m 0 m 0 m"
    unfolding subvolume_size_exact [OF within m(2)] using m(1) by simp
  moreover have "is_subvolume_homogeneous P 0 m 0 m 0 m"
    using within m(2) u by (rule uniform_imp_homogeneous)
  moreover have "P ! 0 ! 0 ! 0 = v"
    using u m(1) by (simp add: uniform_def)
  moreover have "length P = m"
    using P by (rule cuboidD)
  ultimately show ?thesis
    by (simp add: encode_def encode_recursive.simps RECURSION_MAX_DEPTH_def)
qed

lemma pad_encode_uniform:
  assumes "cuboid V X Y Z" "1 \<le> X" "1 \<le> Y" "1 \<le> Z"
    and "X \<le> 2 ^ 21" "Y \<le> 2 ^ 21" "Z \<le> 2 ^ 21"
    and "uniform V (0, X, 0, Y, 0, Z) v"
    and "v = False \<or> (\<exists>k. X = 2 ^ k \<and> Y = 2 ^ k \<and> Z = 2 ^ k)"
  shows "pad_to_cube V = Inr (cut_volume V (max_res_pow2_roof X Y Z) (max_res_pow2_roof X Y Z)
            (max_res_pow2_roof X Y Z))
         \<and> encode (cut_volume V (max_res_pow2_roof X Y Z) (max_res_pow2_roof X Y Z)
            (max_res_pow2_roof X Y Z)) = Inr [False, v]"
proof -
  let ?m = "max_res_pow2_roof X Y Z"
  let ?P = "cut_volume V ?m ?m ?m"
  from assms(2,5-7) obtain k where k: "?m = 2 ^ k" "k \<le> 21"
    "X \<le> 2 ^ k" "Y \<le> 2 ^ k" "Z \<le> 2 ^ k"
    by (rule max_res_pow2_roof_bounded) simp
  have "(2::nat) ^ k \<le> 2 ^ 21"
    using k(2) by (intro power_increasing) simp_all
  then have m: "1 \<le> ?m" "?m \<le> 2 ^ 21" by (simp_all add: k(1))
  have pad: "pad_to_cube V = Inr ?P"
    using assms(1-4) k(3-5) m(2) unfolding k(1) [symmetric] by (rule pad_to_cube_cuboid)
  note len = cuboidD [OF assms(1)]
  have cell: "?P ! x ! y ! z = v" if "x < ?m" "y < ?m" "z < ?m" for x y z
  proof (cases "x < X \<and> y < Y \<and> z < Z")
    case True
    with that assms(1,8) show ?thesis
      by (simp add: nth_cut_volume len uniform_def)
  next
    case False
    from assms(9) show ?thesis
    proof
      assume "v = False"
      with that False show ?thesis
        by (auto simp: nth_cut_volume len)
    next
      assume "\<exists>k. X = 2 ^ k \<and> Y = 2 ^ k \<and> Z = 2 ^ k"
      then obtain j where j: "X = 2 ^ j" "Y = 2 ^ j" "Z = 2 ^ j" by blast
      from assms(5) have "(2::nat) ^ j \<le> 2 ^ 21"
        unfolding j .
      also have "(2::nat) ^ 21 < 2 ^ 64" by simp
      finally have "j < 64"
        by (rule power_less_imp_less_exp [of 2, rotated]) simp
      then have "max_res_pow2_roof (2 ^ j) (2 ^ j) (2 ^ j) = 2 ^ j"
        by (rule max_res_pow2_roof_power)
      then have "?m = X" "?m = Y" "?m = Z"
        unfolding j by this+
      with that have "x < X \<and> y < Y \<and> z < Z"
        by (simp only:)
      with False show ?thesis by blast
    qed
  qed
  have "encode ?P = Inr [False, v]"
    using cuboid_cut_volume m
  proof (rule encode_uniform)
    show "uniform ?P (0, ?m, 0, ?m, 0, ?m) v"
      by (simp add: uniform_def cell)
  qed
  with pad show ?thesis by simp
qed

text \<open>
  Claim C4, as amended. For every non-empty volume, with no axis longer than \<open>2 ^ 21\<close>
  (so that the number of cells of the padded cube fits \<^verbatim>\<open>size_t\<close>), all of whose cells
  hold the same value, and which holds \<open>False\<close> everywhere or is already a cube whose
  side is a power of two, the encoding produced by the save pipeline (pad to cube, then
  encode) consists of exactly 2 bits: a leaf token followed by the value.
\<close>

theorem homogeneous_two_bits:
  assumes "cuboid V X Y Z" "1 \<le> X" "1 \<le> Y" "1 \<le> Z"
    and "X \<le> 2 ^ 21" "Y \<le> 2 ^ 21" "Z \<le> 2 ^ 21"
    and "uniform V (0, X, 0, Y, 0, Z) v"
    and "v = False \<or> (\<exists>k. X = 2 ^ k \<and> Y = 2 ^ k \<and> Z = 2 ^ k)"
  shows "\<exists>P. pad_to_cube V = Inr P \<and> encode P = Inr [False, v]"
  using pad_encode_uniform [OF assms] by blast

theorem homogeneous_two_bits_witness:
  "cuboid [[[True, True], [True, True]], [[True, True], [True, True]]] 2 2 2
   \<and> uniform [[[True, True], [True, True]], [[True, True], [True, True]]] (0, 2, 0, 2, 0, 2) True
   \<and> (2::nat) \<le> 2 ^ 21 \<and> (2::nat) = 2 ^ 1
   \<and> (\<exists>P. pad_to_cube [[[True, True], [True, True]], [[True, True], [True, True]]] = Inr P
          \<and> encode P = Inr [False, True])"
proof -
  let ?V = "[[[True, True], [True, True]], [[True, True], [True, True]]]"
  have c: "cuboid ?V 2 2 2"
    by (simp add: cuboid_def)
  have "{0..<2::nat} = {0, 1}"
    by auto
  then have a: "uniform ?V (0, 2, 0, 2, 0, 2) True"
    by (simp add: uniform_def)
  have k: "True = False \<or> (\<exists>k. (2::nat) = 2 ^ k \<and> (2::nat) = 2 ^ k \<and> (2::nat) = 2 ^ k)"
    by (intro disjI2 exI [of _ 1]) simp
  have "\<exists>P. pad_to_cube ?V = Inr P \<and> encode P = Inr [False, True]"
    by (rule homogeneous_two_bits [OF c _ _ _ _ _ _ a k]) simp_all
  with c a show ?thesis by simp
qed

text \<open>
  Padding fills with \<open>False\<close>. The claim as stated for every homogeneous volume fails
  for the volume of two cells that both hold \<open>True\<close>: its padded cube is not
  homogeneous, and the encoding has 17 bits.
\<close>

lemma pad_to_cube_two_cells:
  "pad_to_cube [[[True, True]]]
     = Inr [[[True, True], [False, False]], [[False, False], [False, False]]]"
  by (simp add: pad_to_cube_def deep_copy_def pad_to_cube_inplace_def size_volume_def
      wrap_size_t_def max_res_pow2_roof_def pow2_roof_def resize_def upt_0_2 Let_def
      replicate_numeral)

lemma encode_recursive_two_cells:
  "encode_recursive [[[True, True], [False, False]], [[False, False], [False, False]]] []
      0 2 0 2 0 2 0
     = Inr [True, False, True, False, True, False, False, False, False, False, False,
            False, False, False, False, False, False]"
  by (simp add: encode_recursive.simps RECURSION_MAX_DEPTH_def subvolume_size_def
      sub_size_t_def wrap_size_t_def midpoint_def octants_def is_subvolume_homogeneous_def
      upt_0_2)

theorem homogeneous_true_padded:
  "pad_to_cube [[[True, True]]]
     = Inr [[[True, True], [False, False]], [[False, False], [False, False]]]
   \<and> encode [[[True, True], [False, False]], [[False, False], [False, False]]]
     = Inr [True, False, True, False, True, False, False, False, False, False, False,
            False, False, False, False, False, False]
   \<and> length [True, False, True, False, True, False, False, False, False, False, False,
              False, False, False, False, False, False] \<noteq> 2"
  using pad_to_cube_two_cells encode_recursive_two_cells
  by (simp add: encode_def numeral_2_eq_2)

section \<open>The depth cap under the resolution bound\<close>

text \<open>
  Claim C9, as amended. For every volume whose axes all respect the maximum resolution
  of 100,000, encode of the padded cube does not raise \<open>RecursionLimitExceeded\<close>: it returns
  an encoding; and decode of that encoding at the resolution of the volume does not raise
  \<open>RecursionLimitExceeded\<close>: it returns the volume, with assertions compiled in or not.
\<close>

theorem within_max_resolution_no_recursion_limit:
  assumes "cuboid V X Y Z" "1 \<le> X" "1 \<le> Y" "1 \<le> Z"
    and "X \<le> MAX_RESOLUTION" "Y \<le> MAX_RESOLUTION" "Z \<le> MAX_RESOLUTION"
  shows "\<exists>P bits. pad_to_cube V = Inr P \<and> encode P = Inr bits
           \<and> encode P \<noteq> Inl RecursionLimitExceeded
           \<and> (\<forall>ndebug. decode ndebug bits (X, Y, Z) = Inr V
                \<and> decode ndebug bits (X, Y, Z) \<noteq> Inl RecursionLimitExceeded)"
proof -
  have "MAX_RESOLUTION \<le> 2 ^ RECURSION_MAX_DEPTH"
    by (simp add: MAX_RESOLUTION_def RECURSION_MAX_DEPTH_def)
  with assms(5-7) have "X \<le> 2 ^ RECURSION_MAX_DEPTH" "Y \<le> 2 ^ RECURSION_MAX_DEPTH"
    "Z \<le> 2 ^ RECURSION_MAX_DEPTH"
    by linarith+
  with assms(1-4) obtain P bits where "pad_to_cube V = Inr P" "encode P = Inr bits"
    "\<And>ndebug. decode ndebug bits (X, Y, Z) = Inr V"
    by (rule pad_encode_decode) blast
  then show ?thesis by simp
qed

lemma pad_to_cube_pair:
  "pad_to_cube [[[True, False]]]
     = Inr [[[True, False], [False, False]], [[False, False], [False, False]]]"
  by (simp add: pad_to_cube_def deep_copy_def pad_to_cube_inplace_def size_volume_def
      wrap_size_t_def max_res_pow2_roof_def pow2_roof_def resize_def upt_0_2 Let_def
      replicate_numeral)

theorem within_max_resolution_no_recursion_limit_witness:
  "cuboid [[[True, False]]] 1 1 2 \<and> (1::nat) \<le> MAX_RESOLUTION \<and> (2::nat) \<le> MAX_RESOLUTION
   \<and> (\<exists>P bits. pad_to_cube [[[True, False]]] = Inr P \<and> encode P = Inr bits
           \<and> encode P \<noteq> Inl RecursionLimitExceeded
           \<and> (\<forall>ndebug. decode ndebug bits (1, 1, 2) = Inr [[[True, False]]]
                \<and> decode ndebug bits (1, 1, 2) \<noteq> Inl RecursionLimitExceeded))"
proof -
  have c: "cuboid [[[True, False]]] 1 1 2"
    by (simp add: cuboid_def)
  have m: "(1::nat) \<le> MAX_RESOLUTION" "(2::nat) \<le> MAX_RESOLUTION"
    by (simp_all add: MAX_RESOLUTION_def)
  from c m within_max_resolution_no_recursion_limit [OF c _ _ _ m(1) m(1) m(2)]
  show ?thesis by simp
qed

text \<open>
  The decoder does not look at the size of a region: a bit sequence of 21 branch tokens
  takes it to depth 21 at any resolution. The claim as stated for the decoding of any
  encoding fails at the resolution \<open>(1, 1, 1)\<close>.
\<close>

theorem decode_branch_chain_small_resolution:
  "decode False (replicate 21 True) (1, 1, 1) = Inl RecursionLimitExceeded
   \<and> decode True (replicate 21 True) (1, 1, 1) = Inl RecursionLimitExceeded"
  by (simp add: decode_def max_res_pow2_roof_def pow2_roof_def decode_recursive.simps
      read_bit_def RECURSION_MAX_DEPTH_def octants_def)

section \<open>Truncated encodings\<close>

lemma decode_no_undefined_read:
  "decode_recursive encoding out next_idx xs xe ys ye zs ze depth \<noteq> Inl UndefinedBehaviour"
  "decode_octants encoding out next_idx rest depth \<noteq> Inl UndefinedBehaviour"
proof (induction encoding out next_idx xs xe ys ye zs ze depth
    and encoding out next_idx rest depth rule: decode_recursive_decode_octants.induct)
  case (1 encoding out next_idx xs xe ys ye zs ze depth)
  show ?case
  proof (cases "RECURSION_MAX_DEPTH < depth \<or> length encoding \<le> next_idx")
    case True
    then show ?thesis
      by (auto simp: decode_recursive.simps)
  next
    case False
    then have depth: "\<not> RECURSION_MAX_DEPTH < depth" and idx: "\<not> length encoding \<le> next_idx"
      by simp_all
    then have read: "read_bit encoding next_idx = Inr (encoding ! next_idx)"
      by (simp add: read_bit_def)
    show ?thesis
    proof (cases "encoding ! next_idx")
      case True
      with "1.IH" [OF depth idx read refl] depth idx read show ?thesis
        by (simp add: decode_recursive.simps)
    next
      case False
      with depth idx read show ?thesis
        by (simp add: decode_recursive.simps read_bit_def)
    qed
  qed
next
  case (2 encoding out next_idx depth)
  show ?case by simp
next
  case (3 encoding out next_idx xs xe ys ye zs ze rest depth)
  then show ?case
    by (auto split: sum.splits)
qed

lemma strict_prefix_appendD:
  assumes "strict_prefix p (a @ b)"
  shows "strict_prefix p a \<or> (\<exists>p'. p = a @ p' \<and> strict_prefix p' b)"
proof (cases "prefix a p")
  case True
  then obtain p' where p: "p = a @ p'" by (auto simp: prefix_def)
  with assms have "strict_prefix p' b" by (auto simp: strict_prefix_def)
  with p show ?thesis by blast
next
  case False
  from assms have "prefix p (a @ b)" by (simp add: strict_prefix_def)
  then have "prefix p a \<or> (\<exists>us. p = a @ us \<and> prefix us b)"
    by (simp add: prefix_append)
  with False have "prefix p a" "p \<noteq> a" by auto
  then show ?thesis by (simp add: strict_prefix_def)
qed

lemma decode_octants_truncated:
  assumes "\<And>t pre p out xs xe ys ye zs ze. t \<in> set ts \<Longrightarrow> strict_prefix p (bits_of t) \<Longrightarrow>
      decode_recursive (pre @ p) out (length pre) xs xe ys ye zs ze depth = Inl OutOfRange"
    and "\<And>t pre post out xs xe ys ye zs ze. t \<in> set ts \<Longrightarrow>
      decode_recursive (pre @ bits_of t @ post) out (length pre) xs xe ys ye zs ze depth
        = Inr (length pre + length (bits_of t), paint t out (xs, xe, ys, ye, zs, ze))"
    and "strict_prefix p (concat (map bits_of ts))" "length rs = length ts"
  shows "decode_octants (pre @ p) out (length pre) rs depth = Inl OutOfRange"
  using assms
proof (induction ts arbitrary: pre p out rs)
  case Nil
  then show ?case by simp
next
  case (Cons t ts)
  from Cons.prems(4) obtain xs xe ys ye zs ze rs' where
    rs: "rs = (xs, xe, ys, ye, zs, ze) # rs'" and len: "length rs' = length ts"
    by (cases rs) auto
  from Cons.prems(3) have "strict_prefix p (bits_of t @ concat (map bits_of ts))"
    by simp
  then consider "strict_prefix p (bits_of t)"
    | p' where "p = bits_of t @ p'" "strict_prefix p' (concat (map bits_of ts))"
    using strict_prefix_appendD by blast
  then show ?case
  proof cases
    case 1
    then have "decode_recursive (pre @ p) out (length pre) xs xe ys ye zs ze depth
        = Inl OutOfRange"
      by (intro Cons.prems(1)) simp_all
    then show ?thesis by (simp add: rs)
  next
    case 2
    have first: "decode_recursive (pre @ bits_of t @ p') out (length pre) xs xe ys ye zs ze depth
        = Inr (length pre + length (bits_of t), paint t out (xs, xe, ys, ye, zs, ze))"
      by (intro Cons.prems(2)) simp
    have "decode_octants ((pre @ bits_of t) @ p') (paint t out (xs, xe, ys, ye, zs, ze))
        (length (pre @ bits_of t)) rs' depth = Inl OutOfRange"
    proof (rule Cons.IH [OF _ _ 2(2) len])
      show "decode_recursive (pre @ p) out (length pre) xs xe ys ye zs ze depth = Inl OutOfRange"
        if "u \<in> set ts" "strict_prefix p (bits_of u)" for u pre p out xs xe ys ye zs ze
        using that by (intro Cons.prems(1) [of u]) simp_all
      show "decode_recursive (pre @ bits_of u @ post) out (length pre) xs xe ys ye zs ze depth
          = Inr (length pre + length (bits_of u), paint u out (xs, xe, ys, ye, zs, ze))"
        if "u \<in> set ts" for u pre post out xs xe ys ye zs ze
        using that by (intro Cons.prems(2)) simp
    qed
    with first show ?thesis
      by (simp add: rs 2(1))
  qed
qed

lemma decode_truncated:
  assumes "wf_octree t" "height t + depth \<le> RECURSION_MAX_DEPTH" "strict_prefix p (bits_of t)"
  shows "decode_recursive (pre @ p) out (length pre) xs xe ys ye zs ze depth = Inl OutOfRange"
  using assms
proof (induction t arbitrary: pre p out xs xe ys ye zs ze depth)
  case (Leaf v)
  from Leaf.prems(3) have "p = [] \<or> p = [False]"
    by (cases p) (auto simp: strict_prefix_def prefix_Cons)
  with Leaf.prems(2) show ?case
    by (auto simp: decode_recursive.simps read_bit_def nth_append)
next
  case (Branch ts)
  from Branch.prems have len: "length ts = 8" and wf: "\<And>t. t \<in> set ts \<Longrightarrow> wf_octree t"
    by simp_all
  have depth: "\<not> RECURSION_MAX_DEPTH < depth"
    using Branch.prems(2) by simp
  have child: "height t + (depth + 1) \<le> RECURSION_MAX_DEPTH" if "t \<in> set ts" for t
    using height_child [OF that Branch.prems(2)] by simp
  show ?case
  proof (cases p)
    case Nil
    then show ?thesis
      by (simp add: decode_recursive.simps depth)
  next
    case (Cons b p')
    with Branch.prems(3) have b: "b = True"
      and p': "strict_prefix p' (concat (map bits_of ts))"
      by simp_all
    have "decode_octants ((pre @ [True]) @ p') out (length (pre @ [True]))
        (suboctants (xs, xe, ys, ye, zs, ze)) (depth + 1) = Inl OutOfRange"
    proof (rule decode_octants_truncated [OF _ _ p'])
      show "length (suboctants (xs, xe, ys, ye, zs, ze)) = length ts"
        using len by simp
      show "decode_recursive (pre @ p) out (length pre) xs xe ys ye zs ze (depth + 1)
          = Inl OutOfRange"
        if "t \<in> set ts" "strict_prefix p (bits_of t)" for t pre p out xs xe ys ye zs ze
        using that by (intro Branch.IH [of t] wf child)
      show "decode_recursive (pre @ bits_of t @ post) out (length pre) xs xe ys ye zs ze
          (depth + 1)
          = Inr (length pre + length (bits_of t), paint t out (xs, xe, ys, ye, zs, ze))"
        if "t \<in> set ts" for t pre post out xs xe ys ye zs ze
        using that by (intro decode_tree wf child)
    qed
    with depth show ?thesis
      by (simp add: decode_recursive.simps read_bit_def nth_append suboctants_def Cons b)
  qed
qed

fun branch_chain :: "nat \<Rightarrow> octree" where
  "branch_chain 0 = Leaf False"
| "branch_chain (Suc n) = Branch (branch_chain n # replicate 7 (Leaf False))"

lemma wf_branch_chain: "wf_octree (branch_chain n)"
  by (induction n) auto

lemma strict_prefix_branch_chain:
  "strict_prefix (replicate n True) (bits_of (branch_chain n))"
proof (induction n)
  case 0
  show ?case by simp
next
  case (Suc n)
  then obtain rest where "bits_of (branch_chain n) = replicate n True @ rest" "rest \<noteq> []"
    by (auto simp: strict_prefix_def prefix_def)
  then show ?case
    by (simp add: strict_prefix_def)
qed

text \<open>
  Claim C5, as amended. For every bit sequence that is a proper beginning of the bit
  sequence of an octree with at most 20 levels below its root, decode fails with
  \<open>OutOfRange\<close>; and the decoder never reads the encoding at an index at or beyond its
  length, whatever it is given: each read of a token and of a leaf value comes after a
  check of the cursor against the length.
\<close>

theorem decode_truncated_out_of_range:
  assumes "wf_octree t" "height t \<le> RECURSION_MAX_DEPTH" "strict_prefix encoding (bits_of t)"
  shows "decode ndebug encoding resolution = Inl OutOfRange
         \<and> (\<forall>enc out next_idx xs xe ys ye zs ze depth.
               decode_recursive enc out next_idx xs xe ys ye zs ze depth
                 \<noteq> Inl UndefinedBehaviour)"
proof
  obtain x_res y_res z_res where res: "resolution = (x_res, y_res, z_res)"
    by (cases resolution) auto
  from assms(2) have "height t + 0 \<le> RECURSION_MAX_DEPTH" by simp
  with assms(1) have "decode_recursive ([] @ encoding) out (length ([] :: bool list))
      xs xe ys ye zs ze 0 = Inl OutOfRange" for out xs xe ys ye zs ze
    using assms(3) by (rule decode_truncated)
  then show "decode ndebug encoding resolution = Inl OutOfRange"
    by (simp add: decode_def res Let_def)
  show "\<forall>enc out next_idx xs xe ys ye zs ze depth.
      decode_recursive enc out next_idx xs xe ys ye zs ze depth \<noteq> Inl UndefinedBehaviour"
    by (simp add: decode_no_undefined_read(1))
qed

theorem decode_truncated_out_of_range_witness:
  "wf_octree (Branch (replicate 8 (Leaf True)))
   \<and> height (Branch (replicate 8 (Leaf True))) \<le> RECURSION_MAX_DEPTH
   \<and> strict_prefix [True, False, True, False] (bits_of (Branch (replicate 8 (Leaf True))))
   \<and> decode False [True, False, True, False] (2, 2, 2) = Inl OutOfRange"
proof -
  have a: "wf_octree (Branch (replicate 8 (Leaf True)))"
    by simp
  have b: "height (Branch (replicate 8 (Leaf True))) \<le> RECURSION_MAX_DEPTH"
    by (simp add: RECURSION_MAX_DEPTH_def)
  have c: "strict_prefix [True, False, True, False] (bits_of (Branch (replicate 8 (Leaf True))))"
    by (simp add: replicate_numeral)
  from a b c decode_truncated_out_of_range [OF a b c, of False "(2, 2, 2)"] show ?thesis
    by blast
qed

text \<open>
  The check of the depth comes before the check of the cursor. The 21 branch tokens
  that begin the bit sequence of a chain of 21 nested branches are shorter than that
  tree requires, and decode fails with \<open>RecursionLimitExceeded\<close>, not with \<open>OutOfRange\<close>.
\<close>

theorem decode_truncated_deep_chain:
  "wf_octree (branch_chain 21)
   \<and> strict_prefix (replicate 21 True) (bits_of (branch_chain 21))
   \<and> decode False (replicate 21 True) (2, 2, 2) = Inl RecursionLimitExceeded
   \<and> decode True (replicate 21 True) (2, 2, 2) = Inl RecursionLimitExceeded"
proof (intro conjI)
  show "wf_octree (branch_chain 21)"
    by (rule wf_branch_chain)
  show "strict_prefix (replicate 21 True) (bits_of (branch_chain 21))"
    by (rule strict_prefix_branch_chain)
  show "decode False (replicate 21 True) (2, 2, 2) = Inl RecursionLimitExceeded"
    by (simp add: decode_def max_res_pow2_roof_def pow2_roof_def decode_recursive.simps
        read_bit_def RECURSION_MAX_DEPTH_def octants_def)
  show "decode True (replicate 21 True) (2, 2, 2) = Inl RecursionLimitExceeded"
    by (simp add: decode_def max_res_pow2_roof_def pow2_roof_def decode_recursive.simps
        read_bit_def RECURSION_MAX_DEPTH_def octants_def)
qed

section \<open>Beyond the depth cap\<close>

lemma decode_octants_too_deep:
  assumes "\<And>t pre post out xs xe ys ye zs ze. t \<in> set ts \<Longrightarrow>
      decode_recursive (pre @ bits_of t @ post) out (length pre) xs xe ys ye zs ze depth
        = (if height t + depth \<le> RECURSION_MAX_DEPTH
           then Inr (length pre + length (bits_of t), paint t out (xs, xe, ys, ye, zs, ze))
           else Inl RecursionLimitExceeded)"
    and "\<exists>t \<in> set ts. \<not> height t + depth \<le> RECURSION_MAX_DEPTH"
    and "length rs = length ts"
  shows "decode_octants (pre @ concat (map bits_of ts) @ post) out (length pre) rs depth
           = Inl RecursionLimitExceeded"
  using assms
proof (induction ts arbitrary: pre out rs)
  case Nil
  then show ?case by simp
next
  case (Cons t ts)
  from Cons.prems(3) obtain xs xe ys ye zs ze rs' where
    rs: "rs = (xs, xe, ys, ye, zs, ze) # rs'" and len: "length rs' = length ts"
    by (cases rs) auto
  let ?rest = "concat (map bits_of ts) @ post"
  have first: "decode_recursive (pre @ bits_of t @ ?rest) out (length pre) xs xe ys ye zs ze depth
      = (if height t + depth \<le> RECURSION_MAX_DEPTH
         then Inr (length pre + length (bits_of t), paint t out (xs, xe, ys, ye, zs, ze))
         else Inl RecursionLimitExceeded)"
    by (rule Cons.prems(1)) simp
  show ?case
  proof (cases "height t + depth \<le> RECURSION_MAX_DEPTH")
    case False
    with first show ?thesis by (simp add: rs)
  next
    case True
    with Cons.prems(2) have deep: "\<exists>t \<in> set ts. \<not> height t + depth \<le> RECURSION_MAX_DEPTH"
      by auto
    have "decode_octants ((pre @ bits_of t) @ concat (map bits_of ts) @ post)
        (paint t out (xs, xe, ys, ye, zs, ze)) (length (pre @ bits_of t)) rs' depth
        = Inl RecursionLimitExceeded"
    proof (rule Cons.IH [OF _ deep len])
      show "decode_recursive (pre @ bits_of u @ post) out (length pre) xs xe ys ye zs ze depth
          = (if height u + depth \<le> RECURSION_MAX_DEPTH
             then Inr (length pre + length (bits_of u), paint u out (xs, xe, ys, ye, zs, ze))
             else Inl RecursionLimitExceeded)"
        if "u \<in> set ts" for u pre post out xs xe ys ye zs ze
        using that by (intro Cons.prems(1)) simp
    qed
    with first True show ?thesis
      by (simp add: rs)
  qed
qed

lemma height_Branch_deep_child:
  assumes "ts \<noteq> []" "\<not> height (Branch ts) + d \<le> b"
  shows "\<exists>t \<in> set ts. \<not> height t + Suc d \<le> b"
proof (rule ccontr)
  assume "\<not> (\<exists>t \<in> set ts. \<not> height t + Suc d \<le> b)"
  then have "\<forall>t \<in> set ts. height t + Suc d \<le> b" by blast
  with assms(1) have "height (Branch ts) + d \<le> b"
    by (rule height_Branch_le)
  with assms(2) show False by blast
qed

lemma decode_too_deep:
  assumes "wf_octree t" "\<not> height t + depth \<le> RECURSION_MAX_DEPTH"
  shows "decode_recursive (pre @ bits_of t @ post) out (length pre) xs xe ys ye zs ze depth
           = Inl RecursionLimitExceeded"
  using assms
proof (induction t arbitrary: pre post out xs xe ys ye zs ze depth)
  case (Leaf v)
  then show ?case
    by (simp add: decode_recursive.simps)
next
  case (Branch ts)
  from Branch.prems have len: "length ts = 8" and wf: "\<And>t. t \<in> set ts \<Longrightarrow> wf_octree t"
    by simp_all
  show ?case
  proof (cases "RECURSION_MAX_DEPTH < depth")
    case True
    then show ?thesis by (simp add: decode_recursive.simps)
  next
    case False
    from len have "ts \<noteq> []" by auto
    then have deep: "\<exists>t \<in> set ts. \<not> height t + (depth + 1) \<le> RECURSION_MAX_DEPTH"
      using height_Branch_deep_child [OF _ Branch.prems(2)] by simp
    have "decode_octants ((pre @ [True]) @ concat (map bits_of ts) @ post) out
        (length (pre @ [True])) (suboctants (xs, xe, ys, ye, zs, ze)) (depth + 1)
        = Inl RecursionLimitExceeded"
    proof (rule decode_octants_too_deep [OF _ deep])
      show "length (suboctants (xs, xe, ys, ye, zs, ze)) = length ts"
        using len by simp
      show "decode_recursive (pre @ bits_of t @ post) out (length pre) xs xe ys ye zs ze
          (depth + 1)
          = (if height t + (depth + 1) \<le> RECURSION_MAX_DEPTH
             then Inr (length pre + length (bits_of t), paint t out (xs, xe, ys, ye, zs, ze))
             else Inl RecursionLimitExceeded)"
        if "t \<in> set ts" for t pre post out xs xe ys ye zs ze
      proof (cases "height t + (depth + 1) \<le> RECURSION_MAX_DEPTH")
        case True
        with wf [OF that] show ?thesis
          by (simp add: decode_tree)
      next
        case False
        with that show ?thesis
          by (simp add: Branch.IH wf)
      qed
    qed
    with False show ?thesis
      by (simp add: decode_recursive.simps read_bit_def nth_append suboctants_def)
  qed
qed

lemma encode_octants_cases:
  assumes "\<And>xs xe ys ye zs ze enc. (xs, xe, ys, ye, zs, ze) \<in> set rs \<Longrightarrow>
      (\<exists>enc'. encode_recursive data enc xs xe ys ye zs ze depth = Inr enc')
      \<or> encode_recursive data enc xs xe ys ye zs ze depth = Inl RecursionLimitExceeded"
  shows "(\<exists>enc'. encode_octants data enc rs depth = Inr enc')
         \<or> encode_octants data enc rs depth = Inl RecursionLimitExceeded"
  using assms
proof (induction rs arbitrary: enc)
  case Nil
  then show ?case by simp
next
  case (Cons r rs)
  obtain xs xe ys ye zs ze where r: "r = (xs, xe, ys, ye, zs, ze)"
    by (cases r) auto
  from Cons.prems [of xs xe ys ye zs ze enc]
  consider b where "encode_recursive data enc xs xe ys ye zs ze depth = Inr b"
    | "encode_recursive data enc xs xe ys ye zs ze depth = Inl RecursionLimitExceeded"
    by (auto simp: r)
  then show ?case
  proof cases
    case 1
    have "(\<exists>enc'. encode_octants data b rs depth = Inr enc')
        \<or> encode_octants data b rs depth = Inl RecursionLimitExceeded"
      using Cons.prems by (intro Cons.IH) simp
    with 1 show ?thesis by (simp add: r)
  next
    case 2
    then show ?thesis by (simp add: r)
  qed
qed

lemma encode_octants_limit:
  assumes "\<And>xs xe ys ye zs ze enc. (xs, xe, ys, ye, zs, ze) \<in> set rs \<Longrightarrow>
      (\<exists>enc'. encode_recursive data enc xs xe ys ye zs ze depth = Inr enc')
      \<or> encode_recursive data enc xs xe ys ye zs ze depth = Inl RecursionLimitExceeded"
    and "(as, ae, bs, be, cs, ce) \<in> set rs"
    and "\<And>enc. encode_recursive data enc as ae bs be cs ce depth = Inl RecursionLimitExceeded"
  shows "encode_octants data enc rs depth = Inl RecursionLimitExceeded"
  using assms
proof (induction rs arbitrary: enc)
  case Nil
  then show ?case by simp
next
  case (Cons r rs)
  obtain xs xe ys ye zs ze where r: "r = (xs, xe, ys, ye, zs, ze)"
    by (cases r) auto
  from Cons.prems(1) [of xs xe ys ye zs ze enc]
  consider b where "encode_recursive data enc xs xe ys ye zs ze depth = Inr b"
    | "encode_recursive data enc xs xe ys ye zs ze depth = Inl RecursionLimitExceeded"
    by (auto simp: r)
  then show ?case
  proof cases
    case 1
    with Cons.prems(3) have "r \<noteq> (as, ae, bs, be, cs, ce)"
      by (auto simp: r)
    with Cons.prems(2) have mem: "(as, ae, bs, be, cs, ce) \<in> set rs" by simp
    have "encode_octants data b rs depth = Inl RecursionLimitExceeded"
    proof (rule Cons.IH [OF _ mem Cons.prems(3)])
      show "(\<exists>enc'. encode_recursive data enc xs xe ys ye zs ze depth = Inr enc')
          \<or> encode_recursive data enc xs xe ys ye zs ze depth = Inl RecursionLimitExceeded"
        if "(xs, xe, ys, ye, zs, ze) \<in> set rs" for xs xe ys ye zs ze enc
        using that by (intro Cons.prems(1)) simp
    qed
    with 1 show ?thesis by (simp add: r)
  next
    case 2
    then show ?thesis by (simp add: r)
  qed
qed

lemma encode_recursive_cases:
  assumes n: "n \<le> 2 ^ 21"
    and "xs + 2 ^ j \<le> n" "ys + 2 ^ j \<le> n" "zs + 2 ^ j \<le> n"
  shows "(\<exists>enc'. encode_recursive data enc xs (xs + 2 ^ j) ys (ys + 2 ^ j) zs (zs + 2 ^ j) depth
            = Inr enc')
         \<or> encode_recursive data enc xs (xs + 2 ^ j) ys (ys + 2 ^ j) zs (zs + 2 ^ j) depth
            = Inl RecursionLimitExceeded"
  using assms(2-)
proof (induction j arbitrary: enc xs ys zs depth)
  case 0
  let ?r = "(xs, xs + 2 ^ 0, ys, ys + 2 ^ 0, zs, zs + 2 ^ 0)"
  from 0 have within: "region_within n ?r"
    by (simp add: region_within_def)
  have "subvolume_size xs (xs + 2 ^ 0) ys (ys + 2 ^ 0) zs (zs + 2 ^ 0) = 1"
    unfolding subvolume_size_exact [OF within n] by simp
  moreover have "is_subvolume_homogeneous data xs (xs + 2 ^ 0) ys (ys + 2 ^ 0) zs (zs + 2 ^ 0)"
    unfolding is_subvolume_homogeneous_iff [OF within n] by simp
  ultimately show ?case
    by (subst (1 2) encode_recursive.simps) simp
next
  case (Suc j)
  let ?xe = "xs + 2 ^ Suc j" and ?ye = "ys + 2 ^ Suc j" and ?ze = "zs + 2 ^ Suc j"
  from Suc.prems have within: "region_within n (xs, ?xe, ys, ?ye, zs, ?ze)"
    by (simp add: region_within_def)
  have size: "0 \<noteq> subvolume_size xs ?xe ys ?ye zs ?ze"
    unfolding subvolume_size_exact [OF within n] by simp
  have mid: "midpoint xs ?xe = xs + 2 ^ j" "midpoint ys ?ye = ys + 2 ^ j"
    "midpoint zs ?ze = zs + 2 ^ j"
    using Suc.prems(1-3) n by (simp_all add: midpoint_exact [of _ _ n])
  show ?case
  proof (cases "RECURSION_MAX_DEPTH < depth
      \<or> is_subvolume_homogeneous data xs ?xe ys ?ye zs ?ze")
    case True
    with size show ?thesis
      by (subst (1 2) encode_recursive.simps) auto
  next
    case False
    have "(\<exists>enc'. encode_octants data (enc @ [True])
        (octants xs (xs + 2 ^ j) ?xe ys (ys + 2 ^ j) ?ye zs (zs + 2 ^ j) ?ze) (depth + 1)
        = Inr enc')
      \<or> encode_octants data (enc @ [True])
        (octants xs (xs + 2 ^ j) ?xe ys (ys + 2 ^ j) ?ye zs (zs + 2 ^ j) ?ze) (depth + 1)
        = Inl RecursionLimitExceeded"
    proof (rule encode_octants_cases)
      fix a b c d e f enc0
      assume "(a, b, c, d, e, f)
        \<in> set (octants xs (xs + 2 ^ j) ?xe ys (ys + 2 ^ j) ?ye zs (zs + 2 ^ j) ?ze)"
      then have ab: "(a, b) \<in> {(xs, xs + 2 ^ j), (xs + 2 ^ j, ?xe)}"
        and cd: "(c, d) \<in> {(ys, ys + 2 ^ j), (ys + 2 ^ j, ?ye)}"
        and ef: "(e, f) \<in> {(zs, zs + 2 ^ j), (zs + 2 ^ j, ?ze)}"
        unfolding set_octants_iff by blast+
      from ab Suc.prems(1) have a: "b = a + 2 ^ j" "a + 2 ^ j \<le> n" by auto
      from cd Suc.prems(2) have c: "d = c + 2 ^ j" "c + 2 ^ j \<le> n" by auto
      from ef Suc.prems(3) have e: "f = e + 2 ^ j" "e + 2 ^ j \<le> n" by auto
      show "(\<exists>enc'. encode_recursive data enc0 a b c d e f (depth + 1) = Inr enc')
          \<or> encode_recursive data enc0 a b c d e f (depth + 1) = Inl RecursionLimitExceeded"
        unfolding a(1) c(1) e(1) using a(2) c(2) e(2) by (rule Suc.IH)
    qed
    with False size mid show ?thesis
      by (subst (1 2) encode_recursive.simps) simp
  qed
qed

lemma uniform_subregion:
  assumes "uniform data (xs, xe, ys, ye, zs, ze) v"
    and "xs \<le> xs'" "xe' \<le> xe" "ys \<le> ys'" "ye' \<le> ye" "zs \<le> zs'" "ze' \<le> ze"
  shows "uniform data (xs', xe', ys', ye', zs', ze') v"
  using assms by (auto simp: uniform_def)

lemma encode_recursive_beyond_limit:
  "RECURSION_MAX_DEPTH < depth \<Longrightarrow>
     encode_recursive data enc xs xe ys ye zs ze depth = Inl RecursionLimitExceeded"
  by (simp add: encode_recursive.simps)

lemma decode_recursive_beyond_limit:
  "RECURSION_MAX_DEPTH < depth \<Longrightarrow>
     decode_recursive encoding out next_idx xs xe ys ye zs ze depth
       = Inl RecursionLimitExceeded"
  by (simp add: decode_recursive.simps)

lemma half_split:
  fixes a p h :: nat
  assumes "2 * p \<le> 2 * a" "2 * a + 2 \<le> 2 * p + 2 * (2 * h)"
  obtains p' where "p' = p \<or> p' = p + h" "2 * p' \<le> 2 * a" "2 * a + 2 \<le> 2 * p' + 2 * h"
proof (cases "a < p + h")
  case True
  with assms have "2 * p \<le> 2 * a" "2 * a + 2 \<le> 2 * p + 2 * h" by simp_all
  then show ?thesis by (intro that [of p]) simp_all
next
  case False
  with assms have "2 * (p + h) \<le> 2 * a" "2 * a + 2 \<le> 2 * (p + h) + 2 * h" by simp_all
  then show ?thesis by (intro that [of "p + h"]) simp_all
qed

lemma encode_recursive_limit:
  assumes n: "n \<le> 2 ^ 21"
    and "2 * p + 2 ^ Suc j \<le> n" "2 * q + 2 ^ Suc j \<le> n" "2 * r + 2 ^ Suc j \<le> n"
    and "j + depth = RECURSION_MAX_DEPTH"
    and "2 * p \<le> 2 * a" "2 * a + 2 \<le> 2 * p + 2 ^ Suc j"
    and "2 * q \<le> 2 * b" "2 * b + 2 \<le> 2 * q + 2 ^ Suc j"
    and "2 * r \<le> 2 * c" "2 * c + 2 \<le> 2 * r + 2 ^ Suc j"
    and mixed: "\<not> uniform data (2 * a, 2 * a + 2, 2 * b, 2 * b + 2, 2 * c, 2 * c + 2) True"
      "\<not> uniform data (2 * a, 2 * a + 2, 2 * b, 2 * b + 2, 2 * c, 2 * c + 2) False"
  shows "encode_recursive data enc (2 * p) (2 * p + 2 ^ Suc j) (2 * q) (2 * q + 2 ^ Suc j)
           (2 * r) (2 * r + 2 ^ Suc j) depth = Inl RecursionLimitExceeded"
  using assms(2-11)
proof (induction j arbitrary: enc p q r depth)
  case 0
  let ?xs = "2 * p" and ?ys = "2 * q" and ?zs = "2 * r"
  let ?xe = "2 * p + 2 ^ Suc 0" and ?ye = "2 * q + 2 ^ Suc 0" and ?ze = "2 * r + 2 ^ Suc 0"
  from "0.prems" have within: "region_within n (?xs, ?xe, ?ys, ?ye, ?zs, ?ze)"
    by (simp add: region_within_def)
  have size: "0 \<noteq> subvolume_size ?xs ?xe ?ys ?ye ?zs ?ze"
    unfolding subvolume_size_exact [OF within n] by simp
  have depth: "depth = RECURSION_MAX_DEPTH"
    using "0.prems"(4) by simp
  have not_uniform: "\<not> uniform data (?xs, ?xe, ?ys, ?ye, ?zs, ?ze) v" for v
  proof
    assume "uniform data (?xs, ?xe, ?ys, ?ye, ?zs, ?ze) v"
    then have "uniform data (2 * a, 2 * a + 2, 2 * b, 2 * b + 2, 2 * c, 2 * c + 2) v"
      using "0.prems"(5-10) by (rule uniform_subregion)
    with mixed show False by (cases v) simp_all
  qed
  have inhom: "\<not> is_subvolume_homogeneous data ?xs ?xe ?ys ?ye ?zs ?ze"
    using homogeneous_imp_uniform [OF within n _ size] not_uniform by blast
  have "encode_octants data (enc @ [True])
      (octants ?xs (midpoint ?xs ?xe) ?xe ?ys (midpoint ?ys ?ye) ?ye ?zs (midpoint ?zs ?ze) ?ze)
      (depth + 1) = Inl RecursionLimitExceeded"
  proof (rule encode_octants_limit)
    show "(?xs, midpoint ?xs ?xe, ?ys, midpoint ?ys ?ye, ?zs, midpoint ?zs ?ze)
        \<in> set (octants ?xs (midpoint ?xs ?xe) ?xe ?ys (midpoint ?ys ?ye) ?ye
                 ?zs (midpoint ?zs ?ze) ?ze)"
      unfolding set_octants_iff by blast
  qed (simp_all add: encode_recursive_beyond_limit depth)
  with size inhom depth show ?case
    by (subst encode_recursive.simps) (simp add: Let_def)
next
  case (Suc j)
  define h where "h = (2::nat) ^ j"
  have pow: "(2::nat) ^ Suc j = 2 * h" "(2::nat) ^ Suc (Suc j) = 2 * (2 * h)"
    by (simp_all add: h_def)
  let ?xs = "2 * p" and ?ys = "2 * q" and ?zs = "2 * r"
  let ?xe = "2 * p + 2 ^ Suc (Suc j)" and ?ye = "2 * q + 2 ^ Suc (Suc j)"
    and ?ze = "2 * r + 2 ^ Suc (Suc j)"
  from Suc.prems have within: "region_within n (?xs, ?xe, ?ys, ?ye, ?zs, ?ze)"
    by (simp add: region_within_def)
  have size: "0 \<noteq> subvolume_size ?xs ?xe ?ys ?ye ?zs ?ze"
    unfolding subvolume_size_exact [OF within n] by simp
  have depth: "\<not> RECURSION_MAX_DEPTH < depth" and depth': "j + (depth + 1) = RECURSION_MAX_DEPTH"
    using Suc.prems(4) by simp_all
  have not_uniform: "\<not> uniform data (?xs, ?xe, ?ys, ?ye, ?zs, ?ze) v" for v
  proof
    assume "uniform data (?xs, ?xe, ?ys, ?ye, ?zs, ?ze) v"
    then have "uniform data (2 * a, 2 * a + 2, 2 * b, 2 * b + 2, 2 * c, 2 * c + 2) v"
      using Suc.prems(5-10) by (rule uniform_subregion)
    with mixed show False by (cases v) simp_all
  qed
  have inhom: "\<not> is_subvolume_homogeneous data ?xs ?xe ?ys ?ye ?zs ?ze"
    using homogeneous_imp_uniform [OF within n _ size] not_uniform by blast
  have mid: "midpoint ?xs ?xe = 2 * p + 2 ^ Suc j" "midpoint ?ys ?ye = 2 * q + 2 ^ Suc j"
    "midpoint ?zs ?ze = 2 * r + 2 ^ Suc j"
    using Suc.prems(1-3) n by (simp_all add: midpoint_exact [of _ _ n])
  from Suc.prems(5,6) obtain p' where p': "p' = p \<or> p' = p + h" "2 * p' \<le> 2 * a"
    "2 * a + 2 \<le> 2 * p' + 2 * h"
    unfolding pow by (rule half_split)
  from Suc.prems(7,8) obtain q' where q': "q' = q \<or> q' = q + h" "2 * q' \<le> 2 * b"
    "2 * b + 2 \<le> 2 * q' + 2 * h"
    unfolding pow by (rule half_split)
  from Suc.prems(9,10) obtain r' where r': "r' = r \<or> r' = r + h" "2 * r' \<le> 2 * c"
    "2 * c + 2 \<le> 2 * r' + 2 * h"
    unfolding pow by (rule half_split)
  have le': "2 * p' + 2 ^ Suc j \<le> n" "2 * q' + 2 ^ Suc j \<le> n" "2 * r' + 2 ^ Suc j \<le> n"
    using p'(1) q'(1) r'(1) Suc.prems(1-3) unfolding pow by auto
  have "encode_octants data (enc @ [True])
      (octants ?xs (midpoint ?xs ?xe) ?xe ?ys (midpoint ?ys ?ye) ?ye ?zs (midpoint ?zs ?ze) ?ze)
      (depth + 1) = Inl RecursionLimitExceeded"
    unfolding mid
  proof (rule encode_octants_limit)
    show "(2 * p', 2 * p' + 2 ^ Suc j, 2 * q', 2 * q' + 2 ^ Suc j, 2 * r', 2 * r' + 2 ^ Suc j)
        \<in> set (octants ?xs (2 * p + 2 ^ Suc j) ?xe ?ys (2 * q + 2 ^ Suc j) ?ye
                 ?zs (2 * r + 2 ^ Suc j) ?ze)"
      unfolding set_octants_iff pow using p'(1) q'(1) r'(1) by auto
    show "encode_recursive data enc (2 * p') (2 * p' + 2 ^ Suc j) (2 * q') (2 * q' + 2 ^ Suc j)
        (2 * r') (2 * r' + 2 ^ Suc j) (depth + 1) = Inl RecursionLimitExceeded" for enc
      using le' depth' p'(2,3) q'(2,3) r'(2,3) unfolding pow [symmetric]
      by (intro Suc.IH) (simp_all add: pow)
  next
    fix x0 x1 y0 y1 z0 z1 enc0
    assume "(x0, x1, y0, y1, z0, z1)
        \<in> set (octants ?xs (2 * p + 2 ^ Suc j) ?xe ?ys (2 * q + 2 ^ Suc j) ?ye
                 ?zs (2 * r + 2 ^ Suc j) ?ze)"
    then have ab: "(x0, x1) \<in> {(?xs, 2 * p + 2 ^ Suc j), (2 * p + 2 ^ Suc j, ?xe)}"
      and cd: "(y0, y1) \<in> {(?ys, 2 * q + 2 ^ Suc j), (2 * q + 2 ^ Suc j, ?ye)}"
      and ef: "(z0, z1) \<in> {(?zs, 2 * r + 2 ^ Suc j), (2 * r + 2 ^ Suc j, ?ze)}"
      unfolding set_octants_iff by blast+
    from ab Suc.prems(1) have x: "x1 = x0 + 2 ^ Suc j" "x0 + 2 ^ Suc j \<le> n" by auto
    from cd Suc.prems(2) have y: "y1 = y0 + 2 ^ Suc j" "y0 + 2 ^ Suc j \<le> n" by auto
    from ef Suc.prems(3) have z: "z1 = z0 + 2 ^ Suc j" "z0 + 2 ^ Suc j \<le> n" by auto
    show "(\<exists>enc'. encode_recursive data enc0 x0 x1 y0 y1 z0 z1 (depth + 1) = Inr enc')
        \<or> encode_recursive data enc0 x0 x1 y0 y1 z0 z1 (depth + 1) = Inl RecursionLimitExceeded"
      unfolding x(1) y(1) z(1) using n x(2) y(2) z(2) by (rule encode_recursive_cases)
  qed
  with size inhom depth show ?case
    by (subst encode_recursive.simps) (simp add: Let_def)
qed

lemma height_branch_chain: "height (branch_chain n) = n"
  by (induction n) simp_all

lemma encode_mixed_block:
  assumes len: "length P = 2 ^ 21"
    and x: "x < 2 ^ 21" "x' < 2 ^ 21" "x div 2 = x' div 2"
    and y: "y < 2 ^ 21" "y' < 2 ^ 21" "y div 2 = y' div 2"
    and z: "z < 2 ^ 21" "z' < 2 ^ 21" "z div 2 = z' div 2"
    and differ: "P ! x ! y ! z \<noteq> P ! x' ! y' ! z'"
  shows "encode P = Inl RecursionLimitExceeded"
proof -
  define a b c where "a = x div 2" and "b = y div 2" and "c = z div 2"
  have in_block: "x \<in> {2 * a..<2 * a + 2}" "x' \<in> {2 * a..<2 * a + 2}"
    "y \<in> {2 * b..<2 * b + 2}" "y' \<in> {2 * b..<2 * b + 2}"
    "z \<in> {2 * c..<2 * c + 2}" "z' \<in> {2 * c..<2 * c + 2}"
    using x(3) y(3) z(3) unfolding a_def b_def c_def by auto
  have mixed: "\<not> uniform P (2 * a, 2 * a + 2, 2 * b, 2 * b + 2, 2 * c, 2 * c + 2) v" for v
  proof
    assume "uniform P (2 * a, 2 * a + 2, 2 * b, 2 * b + 2, 2 * c, 2 * c + 2) v"
    with in_block have "P ! x ! y ! z = v" "P ! x' ! y' ! z' = v"
      unfolding uniform_def by blast+
    with differ show False by simp
  qed
  have le: "2 * a + 2 \<le> 2 * 0 + 2 ^ Suc 20" "2 * b + 2 \<le> 2 * 0 + 2 ^ Suc 20"
    "2 * c + 2 \<le> 2 * 0 + 2 ^ Suc 20"
    using x(1) y(1) z(1) unfolding a_def b_def c_def by simp_all
  have "encode_recursive P [] (2 * 0) (2 * 0 + 2 ^ Suc 20) (2 * 0) (2 * 0 + 2 ^ Suc 20)
      (2 * 0) (2 * 0 + 2 ^ Suc 20) 0 = Inl RecursionLimitExceeded"
  proof (rule encode_recursive_limit [where n = "2 ^ 21" and a = a and b = b and c = c])
    show "20 + 0 = RECURSION_MAX_DEPTH"
      by (simp add: RECURSION_MAX_DEPTH_def)
  qed (use le mixed in simp_all)
  then show ?thesis
    by (simp add: encode_def len)
qed

lemma uniform_false_round_trip:
  assumes V: "cuboid V X Y Z" and pos: "1 \<le> X" "1 \<le> Y" "1 \<le> Z"
    and le: "X \<le> 2 ^ 21" "Y \<le> 2 ^ 21" "Z \<le> 2 ^ 21"
    and u: "uniform V (0, X, 0, Y, 0, Z) False"
  shows "\<exists>P. pad_to_cube V = Inr P \<and> encode P = Inr [False, False]"
    and "decode ndebug [False, False] (X, Y, Z) = Inr V"
proof -
  let ?m = "max_res_pow2_roof X Y Z"
  let ?P = "cut_volume V ?m ?m ?m"
  have pe: "pad_to_cube V = Inr ?P \<and> encode ?P = Inr [False, False]"
    using V pos le u by (rule pad_encode_uniform) simp
  then show "\<exists>P. pad_to_cube V = Inr P \<and> encode P = Inr [False, False]"
    by blast
  from pos(1) le obtain k where k: "?m = 2 ^ k" "k \<le> 21"
    "X \<le> 2 ^ k" "Y \<le> 2 ^ k" "Z \<le> 2 ^ k"
    by (rule max_res_pow2_roof_bounded) simp
  have "(2::nat) ^ k \<le> 2 ^ 21"
    using k(2) by (intro power_increasing) simp_all
  then have m: "?m \<le> 2 ^ 21" by (simp add: k(1))
  have "decode_recursive [False, False] (cut_volume [] ?m ?m ?m) 0 0 ?m 0 ?m 0 ?m 0
      = Inr (length [False, False], ?P)"
    using cuboid_cut_volume m conjunct2 [OF pe] cuboid_cut_volume
    by (rule decode_recursive_encode)
  moreover have "cut_volume ?P X Y Z = V"
    using V k(3-5) unfolding k(1) [symmetric] by (rule cut_volume_cut_volume)
  ultimately show "decode ndebug [False, False] (X, Y, Z) = Inr V"
    by (simp add: decode_def Let_def)
qed

text \<open>
  Claim C7, as amended. The cap is on the depth of the calls, and a call goes one level
  deeper only where the data or the encoding asks for it. Encode of a cube of side
  \<open>2 ^ 21\<close> (implied depth 21) in which two cells of one aligned block of
  \<open>2 \<times> 2 \<times> 2\<close> cells hold different values fails with \<open>RecursionLimitExceeded\<close>; and decode
  of an encoding that begins with the bit sequence of an octree with more than 20 levels
  of branches fails with \<open>RecursionLimitExceeded\<close>, at every resolution.
\<close>

theorem beyond_depth_recursion_limit:
  assumes "cuboid P (2 ^ 21) (2 ^ 21) (2 ^ 21)"
    and "x < 2 ^ 21" "x' < 2 ^ 21" "x div 2 = x' div 2"
    and "y < 2 ^ 21" "y' < 2 ^ 21" "y div 2 = y' div 2"
    and "z < 2 ^ 21" "z' < 2 ^ 21" "z div 2 = z' div 2"
    and "P ! x ! y ! z \<noteq> P ! x' ! y' ! z'"
    and "wf_octree t" "RECURSION_MAX_DEPTH < height t"
  shows "encode P = Inl RecursionLimitExceeded
         \<and> decode ndebug (bits_of t @ post) resolution = Inl RecursionLimitExceeded"
proof
  from assms(1) have "length P = 2 ^ 21" by (rule cuboidD)
  then show "encode P = Inl RecursionLimitExceeded"
    using assms(2-11) by (rule encode_mixed_block)
  obtain x_res y_res z_res where res: "resolution = (x_res, y_res, z_res)"
    by (cases resolution) auto
  from assms(13) have "\<not> height t + 0 \<le> RECURSION_MAX_DEPTH" by simp
  with assms(12) have "decode_recursive ([] @ bits_of t @ post) out (length ([] :: bool list))
      xs xe ys ye zs ze 0 = Inl RecursionLimitExceeded" for out xs xe ys ye zs ze
    by (rule decode_too_deep)
  then show "decode ndebug (bits_of t @ post) resolution = Inl RecursionLimitExceeded"
    by (simp add: decode_def res Let_def)
qed

theorem beyond_depth_recursion_limit_witness:
  "cuboid (replicate 2097152 (replicate 2097152 (True # replicate 2097151 False)))
     (2 ^ 21) (2 ^ 21) (2 ^ 21)
   \<and> replicate 2097152 (replicate 2097152 (True # replicate 2097151 False)) ! 0 ! 0 ! 0
       \<noteq> replicate 2097152 (replicate 2097152 (True # replicate 2097151 False)) ! 0 ! 0 ! 1
   \<and> wf_octree (branch_chain 21) \<and> RECURSION_MAX_DEPTH < height (branch_chain 21)
   \<and> encode (replicate 2097152 (replicate 2097152 (True # replicate 2097151 False)))
       = Inl RecursionLimitExceeded
   \<and> decode True (bits_of (branch_chain 21) @ []) (2097152, 2097152, 2097152)
       = Inl RecursionLimitExceeded"
proof -
  let ?P = "replicate 2097152 (replicate 2097152 (True # replicate 2097151 False))"
  have c: "cuboid ?P (2 ^ 21) (2 ^ 21) (2 ^ 21)"
    by (simp add: cuboid_def)
  have d: "?P ! 0 ! 0 ! 0 \<noteq> ?P ! 0 ! 0 ! 1"
    by simp
  have w: "wf_octree (branch_chain 21)"
    by (rule wf_branch_chain)
  have h: "RECURSION_MAX_DEPTH < height (branch_chain 21)"
    by (simp add: height_branch_chain RECURSION_MAX_DEPTH_def)
  from c d w h
    beyond_depth_recursion_limit [OF c _ _ _ _ _ _ _ _ _ d w h,
      of True "[]" "(2097152, 2097152, 2097152)"]
  show ?thesis by simp
qed

text \<open>
  A resolution with an implied depth above 20 does not by itself make the codec fail.
  A volume of \<open>2097152 \<times> 1 \<times> 1\<close> cells that are all \<open>False\<close> is padded to a cube of side
  \<open>2 ^ 21\<close>; the root call of encode finds the cube homogeneous and writes one leaf, and
  decode of the two bits at that resolution returns the volume.
\<close>

theorem uniform_volume_beyond_depth:
  "max_res_pow2_roof 2097152 1 1 = 2 ^ 21
   \<and> (\<exists>P. pad_to_cube (replicate 2097152 [[False]]) = Inr P \<and> encode P = Inr [False, False])
   \<and> decode True [False, False] (2097152, 1, 1) = Inr (replicate 2097152 [[False]])
   \<and> decode False [False, False] (2097152, 1, 1) = Inr (replicate 2097152 [[False]])"
proof -
  let ?V = "replicate 2097152 [[False]]"
  have "pow2_roof (2 ^ 21) = 2 ^ 21"
    by (rule pow2_roof_power)
  then have m: "max_res_pow2_roof 2097152 1 1 = 2 ^ 21"
    by (simp add: max_res_pow2_roof_def)
  have c: "cuboid ?V 2097152 1 1"
    by (simp add: cuboid_def)
  have u: "uniform ?V (0, 2097152, 0, 1, 0, 1) False"
    by (simp add: uniform_def)
  note rt = uniform_false_round_trip [OF c _ _ _ _ _ _ u]
  have "\<exists>P. pad_to_cube ?V = Inr P \<and> encode P = Inr [False, False]"
    by (rule rt(1)) simp_all
  moreover have "decode ndebug [False, False] (2097152, 1, 1) = Inr ?V" for ndebug
    by (rule rt(2)) simp_all
  ultimately show ?thesis
    using m by simp
qed

section \<open>Saving and loading\<close>

abbreviation unpack_byte :: "byte \<Rightarrow> bool list" where
  "unpack_byte c \<equiv> map (\<lambda>j. odd (drop_bit j (sint c))) [7, 6, 5, 4, 3, 2, 1, 0 :: nat]"

lemma odd_drop_bit_sint:
  "j < 8 \<Longrightarrow> odd (drop_bit j (sint (c :: byte))) \<longleftrightarrow> bit c j"
  by (simp add: bit_iff_odd_drop_bit [symmetric] bit_sint_iff min_def)

lemma odd_sint: "odd (sint (c :: byte)) \<longleftrightarrow> bit c 0"
  using odd_drop_bit_sint [of 0 c] by simp

lemma pack_byte_bit:
  "bit (fold (\<lambda>j c. c OR push_bit (7 - j) (of_bool (d ! (i + j)))) [0..<8] (0 :: byte)) k
     \<longleftrightarrow> k < 8 \<and> d ! (i + (7 - k))"
proof (cases "k < 8")
  case False
  then show ?thesis
    using bit_imp_le_length [of _ k, where ?'a = 8] by auto
next
  case True
  then consider "k = 0" | "k = 1" | "k = 2" | "k = 3" | "k = 4" | "k = 5" | "k = 6" | "k = 7"
    by linarith
  then show ?thesis
    by cases (simp_all add: upt_0_8 bit_or_iff bit_push_bit_iff bit_of_bool_iff)
qed

lemma unpack_pack_byte:
  "unpack_byte (fold (\<lambda>j c. c OR push_bit (7 - j) (of_bool (d ! (i + j)))) [0..<8] 0)
     = [d ! i, d ! (i + 1), d ! (i + 2), d ! (i + 3), d ! (i + 4), d ! (i + 5), d ! (i + 6),
        d ! (i + 7)]"
  by (simp add: odd_drop_bit_sint odd_sint pack_byte_bit)







lemma length_write_uint32 [simp]: "length (write_uint32 w) = 4"
  by (simp add: write_uint32_def)

lemma sint_zero_bytes: "list_all (\<lambda>b. 0 \<le> sint b) (write_uint32 0)"
  by (simp add: write_uint32_def)




















text \<open>
  The condition on the metadata bytes is not idle. \<open>load\<close> reads the header into plain
  \<^verbatim>\<open>char\<close>s, and a byte of \<open>0x80\<close> or more is a negative \<^verbatim>\<open>char\<close>: the flags byte of the
  container written for the volume of one cell is \<open>0xC0\<close> (six padding bits), and
  \<^verbatim>\<open>meta_buffer[0] >> 5\<close> is \<open>-2\<close>, so that \<open>load\<close> erases the range from
  \<^verbatim>\<open>encoding.begin()\<close> to \<^verbatim>\<open>encoding.begin() - 2\<close>.
\<close>

lemma load_single_cell:
  "load ndebug [''volume.otbv'' \<mapsto>
       [0x4F, 0x54, 0x42, 0x56, 0x96, 0xC0, 1, 0, 0, 0, 0, 0, 0, 0, 0, 0, 0, 0, 1, 0, 0, 0, 1]]
     ''volume.otbv'' = Inl UndefinedBehaviour"
  by (simp add: load_def load_bytes_def SIGNATURE_def pack_chars_def MAX_RESOLUTION_def
      Let_def)

end
